theory Spec2Isabelle
  imports Complex_Main "HOL-Library.Log_Nat"
begin

section \<open>MassiveSweeper back end: the world grid and its operations\<close>

text \<open>
  A shallow embedding of \<^verbatim>\<open>src/server.js\<close> (the complete-grid server), of the chunk
  request of \<^verbatim>\<open>src/unnamed/part_001\<close> (the same server without the chunk cache) and of
  the entry points of \<^verbatim>\<open>src/unnamed/part_002\<close> (the older server that creates chunks
  lazily). Coordinates and sizes are integers; the mine percentage and the number of mines
  computed from it are JavaScript numbers. The constants of \<^verbatim>\<open>constants.js\<close> are the
  fields of a record, so that every theorem holds for every choice of them.
\<close>

subsection \<open>JavaScript numbers\<close>

text \<open>
  A number is a double: a rational with a significand of 53 bits and an exponent between
  \<open>-1074\<close> and \<open>971\<close>, an infinity, or \<^verbatim>\<open>NaN\<close>. Zero has one sign here.
\<close>

datatype jsnum = Num rat | PosInfinity | NegInfinity | NaN

text \<open>For a positive rational \<open>a\<close>, the integer \<open>k\<close> with \<open>2 ^ k \<le> a < 2 ^ (k + 1)\<close>.\<close>

definition ilog2 :: "rat \<Rightarrow> int" where
  "ilog2 a = (if 1 \<le> a then bitlen \<lfloor>a\<rfloor> - 1 else - bitlen (\<lceil>1 / a\<rceil> - 1))"

text \<open>The nearest integer, the even one of two that are equally near.\<close>

definition roundTiesToEven :: "rat \<Rightarrow> int" where
  "roundTiesToEven x =
     (let f = \<lfloor>x\<rfloor>; d = x - of_int f in
      if d < 1 / 2 then f else if 1 / 2 < d then f + 1 else if even f then f else f + 1)"

text \<open>
  The double nearest to a rational (IEEE 754, round to nearest, ties to even): what a
  number literal denotes and what an arithmetic operation returns for its exact result.
  The exponent \<open>e\<close> of the last place of the significand is \<open>ilog2 \<bar>q\<bar> - 52\<close>, or \<open>-1074\<close> for a
  subnormal; the significand \<open>m\<close> is \<open>\<bar>q\<bar> / 2 ^ e\<close> rounded to an integer; a result \<open>m * 2 ^ e\<close>
  of \<open>2 ^ 1024\<close> or more (the bit length of \<open>m\<close> plus \<open>e\<close> exceeds \<open>1024\<close>) is an infinity.
\<close>

definition fl :: "rat \<Rightarrow> jsnum" where
  "fl q =
     (if q = 0 then Num 0
      else
        let a = \<bar>q\<bar>;
            e = max (ilog2 a - 52) (- 1074);
            m = roundTiesToEven (a / 2 powi e)
        in if 1024 < e + bitlen m
           then (if 0 < q then PosInfinity else NegInfinity)
           else Num (sgn q * (of_int m * 2 powi e)))"

definition js_sign :: "jsnum \<Rightarrow> int" where
  "js_sign x = (case x of Num a \<Rightarrow> \<lfloor>sgn a\<rfloor> | PosInfinity \<Rightarrow> 1 | NegInfinity \<Rightarrow> - 1 | NaN \<Rightarrow> 0)"

text \<open>\<^verbatim>\<open>x * y\<close>.\<close>

definition js_times :: "jsnum \<Rightarrow> jsnum \<Rightarrow> jsnum" where
  "js_times x y =
     (case (x, y) of
        (Num a, Num b) \<Rightarrow> fl (a * b)
      | (NaN, _) \<Rightarrow> NaN
      | (_, NaN) \<Rightarrow> NaN
      | _ \<Rightarrow> (let s = js_sign x * js_sign y in
              if s = 0 then NaN else if 0 < s then PosInfinity else NegInfinity))"

text \<open>\<^verbatim>\<open>x < y\<close>: false when an operand is \<^verbatim>\<open>NaN\<close>.\<close>

definition js_less :: "jsnum \<Rightarrow> jsnum \<Rightarrow> bool" where
  "js_less x y =
     (case (x, y) of
        (Num a, Num b) \<Rightarrow> a < b
      | (Num a, PosInfinity) \<Rightarrow> True
      | (NegInfinity, Num b) \<Rightarrow> True
      | (NegInfinity, PosInfinity) \<Rightarrow> True
      | _ \<Rightarrow> False)"

text \<open>
  \<^verbatim>\<open>Math.round\<close>: the nearest integer, a tie towards plus infinity; an infinity and
  \<^verbatim>\<open>NaN\<close> are returned as they are.
\<close>

definition Math_round :: "jsnum \<Rightarrow> jsnum" where
  "Math_round x = (case x of Num q \<Rightarrow> Num (of_int \<lfloor>q + 1 / 2\<rfloor>) | _ \<Rightarrow> x)"

subsection \<open>Constants and cells\<close>

record config =
  CHUNK_SIZE :: int
  GRID_WIDTH :: int
  GRID_HEIGHT :: int
  MINE_PERCENTAGE :: jsnum

text \<open>The values \<^verbatim>\<open>constants.js\<close> exports; \<^verbatim>\<open>0.17\<close> is the double nearest to 17/100.\<close>

definition constants :: config where
  "constants =
     \<lparr>CHUNK_SIZE = 100, GRID_WIDTH = 800, GRID_HEIGHT = 700, MINE_PERCENTAGE = fl (17 / 100)\<rparr>"

text \<open>The cell object literal \<^verbatim>\<open>{x, y, revealed, hasMine, adjacentMines, flagged}\<close>.\<close>

record cell =
  cell_x :: int
  cell_y :: int
  revealed :: bool
  hasMine :: bool
  adjacentMines :: int
  flagged :: bool

type_synonym grid = "cell list list"

text \<open>
  \<^verbatim>\<open>TypeError\<close>: a property of \<^verbatim>\<open>undefined\<close> is read. \<^verbatim>\<open>RangeError\<close>: the recursion of
  \<^verbatim>\<open>flood\<close> is deeper than the call stack allows.
\<close>

datatype error = TypeError | RangeError

definition newCell :: "int \<Rightarrow> int \<Rightarrow> cell" where
  "newCell gx gy =
     \<lparr>cell_x = gx, cell_y = gy, revealed = False, hasMine = False, adjacentMines = 0, flagged = False\<rparr>"

subsection \<open>JavaScript arrays and arithmetic\<close>

text \<open>\<^verbatim>\<open>xs[i]\<close>: \<^verbatim>\<open>undefined\<close> (here \<open>None\<close>) outside the array.\<close>

definition js_nth :: "'a list \<Rightarrow> int \<Rightarrow> 'a option" where
  "js_nth xs i = (if 0 \<le> i \<and> i < int (length xs) then Some (xs ! nat i) else None)"

text \<open>
  \<^verbatim>\<open>completeGrid[y][x]\<close> followed by a property read of the cell: both an undefined row
  and an undefined cell raise \<^verbatim>\<open>TypeError\<close>.
\<close>

definition cellAt :: "grid \<Rightarrow> int \<Rightarrow> int \<Rightarrow> error + cell" where
  "cellAt g gx gy =
     (case js_nth g gy of
        None \<Rightarrow> Inl TypeError
      | Some row \<Rightarrow> (case js_nth row gx of None \<Rightarrow> Inl TypeError | Some c \<Rightarrow> Inr c))"

text \<open>A property write through the reference \<^verbatim>\<open>completeGrid[y][x]\<close>, after the read succeeded.\<close>

definition setCell :: "grid \<Rightarrow> int \<Rightarrow> int \<Rightarrow> cell \<Rightarrow> grid" where
  "setCell g gx gy c = g[nat gy := (g ! nat gy)[nat gx := c]]"

text \<open>\<^verbatim>\<open>a % b\<close> takes the sign of \<open>a\<close>; \<^verbatim>\<open>Math.floor(a / b)\<close> is \<open>a div b\<close>.\<close>

definition js_rem :: "int \<Rightarrow> int \<Rightarrow> int" where
  "js_rem a b = sgn a * (\<bar>a\<bar> mod \<bar>b\<bar>)"

text \<open>
  The pairs \<open>(dx, dy)\<close> in the order of the loops
  \<^verbatim>\<open>for (dy = -1..1) for (dx = -1..1) if (dx === 0 && dy === 0) continue\<close>.
\<close>

definition offsets :: "(int \<times> int) list" where
  "offsets = [(-1, -1), (0, -1), (1, -1), (-1, 0), (1, 0), (-1, 1), (0, 1), (1, 1)]"

definition inBounds :: "config \<Rightarrow> int \<Rightarrow> int \<Rightarrow> bool" where
  "inBounds conf nx ny \<longleftrightarrow> nx \<ge> 0 \<and> nx < GRID_WIDTH conf \<and> ny \<ge> 0 \<and> ny < GRID_HEIGHT conf"

subsection \<open>Initialization (server.js)\<close>

definition emptyGrid :: "config \<Rightarrow> grid" where
  "emptyGrid conf =
     map (\<lambda>gy. map (\<lambda>gx. newCell gx gy) [0..GRID_WIDTH conf - 1]) [0..GRID_HEIGHT conf - 1]"

text \<open>
  \<^verbatim>\<open>const totalCells = GRID_WIDTH * GRID_HEIGHT;\<close>
  \<^verbatim>\<open>const mineCount = Math.round(totalCells * MINE_PERCENTAGE);\<close>
\<close>

definition mineCount :: "config \<Rightarrow> jsnum" where
  "mineCount conf =
     Math_round (js_times (js_times (Num (of_int (GRID_WIDTH conf))) (Num (of_int (GRID_HEIGHT conf))))
                          (MINE_PERCENTAGE conf))"

text \<open>
  \<^verbatim>\<open>placeMinesInCompleteGrid\<close>. The list holds the draws
  \<^verbatim>\<open>(Math.floor(Math.random() * GRID_WIDTH), Math.floor(Math.random() * GRID_HEIGHT))\<close> of the
  iterations, in order. The loop ends only when \<^verbatim>\<open>placed < mineCount\<close> is false: \<open>None\<close>
  says that it is still running after the last draw of the list.
\<close>

fun placeMinesLoop :: "grid \<Rightarrow> int \<Rightarrow> jsnum \<Rightarrow> (int \<times> int) list \<Rightarrow> (error + grid) option" where
  "placeMinesLoop g placed n [] = (if js_less (Num (of_int placed)) n then None else Some (Inr g))"
| "placeMinesLoop g placed n ((gx, gy) # draws) =
     (if js_less (Num (of_int placed)) n then
        (case cellAt g gx gy of
           Inl e \<Rightarrow> Some (Inl e)
         | Inr c \<Rightarrow>
             if \<not> hasMine c
             then placeMinesLoop (setCell g gx gy (c\<lparr>hasMine := True\<rparr>)) (placed + 1) n draws
             else placeMinesLoop g placed n draws)
      else Some (Inr g))"

definition placeMinesInCompleteGrid :: "config \<Rightarrow> (int \<times> int) list \<Rightarrow> grid \<Rightarrow> (error + grid) option" where
  "placeMinesInCompleteGrid conf draws g = placeMinesLoop g 0 (mineCount conf) draws"

fun countLoop :: "config \<Rightarrow> grid \<Rightarrow> int \<Rightarrow> int \<Rightarrow> (int \<times> int) list \<Rightarrow> int \<Rightarrow> error + int" where
  "countLoop conf g gx gy [] count = Inr count"
| "countLoop conf g gx gy ((dx, dy) # ds) count =
     (let nx = gx + dx; ny = gy + dy in
      if inBounds conf nx ny then
        (case cellAt g nx ny of
           Inl e \<Rightarrow> Inl e
         | Inr c \<Rightarrow> countLoop conf g gx gy ds (if hasMine c then count + 1 else count))
      else countLoop conf g gx gy ds count)"

definition countAdjacentMinesInCompleteGrid :: "config \<Rightarrow> grid \<Rightarrow> int \<Rightarrow> int \<Rightarrow> error + int" where
  "countAdjacentMinesInCompleteGrid conf g gx gy = countLoop conf g gx gy offsets 0"

text \<open>The cells in the order of the loops \<^verbatim>\<open>for (y ...) for (x ...)\<close>.\<close>

definition allPositions :: "config \<Rightarrow> (int \<times> int) list" where
  "allPositions conf =
     concat (map (\<lambda>gy. map (\<lambda>gx. (gx, gy)) [0..GRID_WIDTH conf - 1]) [0..GRID_HEIGHT conf - 1])"

fun calcLoop :: "config \<Rightarrow> (int \<times> int) list \<Rightarrow> grid \<Rightarrow> error + grid" where
  "calcLoop conf [] g = Inr g"
| "calcLoop conf ((gx, gy) # ps) g =
     (case cellAt g gx gy of
        Inl e \<Rightarrow> Inl e
      | Inr c \<Rightarrow>
          (case countAdjacentMinesInCompleteGrid conf g gx gy of
             Inl e \<Rightarrow> Inl e
           | Inr k \<Rightarrow> calcLoop conf ps (setCell g gx gy (c\<lparr>adjacentMines := k\<rparr>))))"

definition calculateAdjacentCountsForCompleteGrid :: "config \<Rightarrow> grid \<Rightarrow> error + grid" where
  "calculateAdjacentCountsForCompleteGrid conf g = calcLoop conf (allPositions conf) g"

definition initializeCompleteGrid :: "config \<Rightarrow> (int \<times> int) list \<Rightarrow> (error + grid) option" where
  "initializeCompleteGrid conf draws =
     (case placeMinesInCompleteGrid conf draws (emptyGrid conf) of
        None \<Rightarrow> None
      | Some (Inl e) \<Rightarrow> Some (Inl e)
      | Some (Inr g) \<Rightarrow> Some (calculateAdjacentCountsForCompleteGrid conf g))"

subsection \<open>Chunks (server.js and part_001)\<close>

text \<open>
  An element of a chunk row: a copy \<^verbatim>\<open>{ ...cell }\<close> of a cell, or the object without
  properties that \<^verbatim>\<open>{ ...undefined }\<close> is.
\<close>

datatype jsobj = Obj cell | EmptyObj

type_synonym chunk = "jsobj list list"

record world =
  completeGrid :: grid
  gridChunks :: "int \<times> int \<Rightarrow> chunk option"
  bombsExploded :: int

fun sequenceE :: "(error + 'a) list \<Rightarrow> error + 'a list" where
  "sequenceE [] = Inr []"
| "sequenceE (r # rs) =
     (case r of
        Inl e \<Rightarrow> Inl e
      | Inr v \<Rightarrow> (case sequenceE rs of Inl e \<Rightarrow> Inl e | Inr vs \<Rightarrow> Inr (v # vs)))"

text \<open>The body of the inner loop of \<^verbatim>\<open>extractChunkFromCompleteGrid\<close>.\<close>

definition extractCell :: "config \<Rightarrow> grid \<Rightarrow> int \<Rightarrow> int \<Rightarrow> error + jsobj" where
  "extractCell conf g gridX gridY =
     (if gridX < GRID_WIDTH conf \<and> gridY < GRID_HEIGHT conf then
        (case js_nth g gridY of
           None \<Rightarrow> Inl TypeError
         | Some row \<Rightarrow> Inr (case js_nth row gridX of None \<Rightarrow> EmptyObj | Some c \<Rightarrow> Obj c))
      else Inr (Obj (newCell gridX gridY)))"

definition extractChunkFromCompleteGrid :: "config \<Rightarrow> grid \<Rightarrow> int \<Rightarrow> int \<Rightarrow> error + chunk" where
  "extractChunkFromCompleteGrid conf g cx cy =
     (let startX = cx * CHUNK_SIZE conf; startY = cy * CHUNK_SIZE conf in
      sequenceE (map (\<lambda>ly. sequenceE (map (\<lambda>lx. extractCell conf g (startX + lx) (startY + ly))
                                          [0..CHUNK_SIZE conf - 1]))
                     [0..CHUNK_SIZE conf - 1]))"

text \<open>\<^verbatim>\<open>getOrCreateChunk\<close> of server.js: the map \<^verbatim>\<open>gridChunks\<close> keeps the first extraction.\<close>

definition getOrCreateChunk :: "config \<Rightarrow> int \<Rightarrow> int \<Rightarrow> world \<Rightarrow> error + chunk \<times> world" where
  "getOrCreateChunk conf cx cy w =
     (case gridChunks w (cx, cy) of
        Some ch \<Rightarrow> Inr (ch, w)
      | None \<Rightarrow>
          (case extractChunkFromCompleteGrid conf (completeGrid w) cx cy of
             Inl e \<Rightarrow> Inl e
           | Inr ch \<Rightarrow> Inr (ch, w\<lparr>gridChunks := (gridChunks w)((cx, cy) \<mapsto> ch)\<rparr>)))"

text \<open>\<^verbatim>\<open>getOrCreateChunk\<close> of part_001: always a fresh extraction.\<close>

definition getOrCreateChunk_fresh :: "config \<Rightarrow> int \<Rightarrow> int \<Rightarrow> world \<Rightarrow> error + chunk \<times> world" where
  "getOrCreateChunk_fresh conf cx cy w =
     (case extractChunkFromCompleteGrid conf (completeGrid w) cx cy of
        Inl e \<Rightarrow> Inl e
      | Inr ch \<Rightarrow> Inr (ch, w))"

subsection \<open>Reveal (server.js)\<close>

text \<open>An element \<^verbatim>\<open>{cx, cy, x, y, cell}\<close> of a returned list.\<close>

record update =
  u_cx :: int
  u_cy :: int
  u_x :: int
  u_y :: int
  u_cell :: cell

definition mkUpdate :: "config \<Rightarrow> int \<Rightarrow> int \<Rightarrow> cell \<Rightarrow> update" where
  "mkUpdate conf gx gy c =
     \<lparr>u_cx = gx div CHUNK_SIZE conf, u_cy = gy div CHUNK_SIZE conf,
      u_x = js_rem gx (CHUNK_SIZE conf), u_y = js_rem gy (CHUNK_SIZE conf), u_cell = c\<rparr>"

text \<open>The global coordinate an element of a returned list names.\<close>

definition updatePos :: "config \<Rightarrow> update \<Rightarrow> int \<times> int" where
  "updatePos conf u = (u_cx u * CHUNK_SIZE conf + u_x u, u_cy u * CHUNK_SIZE conf + u_y u)"

text \<open>
  What the closure \<^verbatim>\<open>flood\<close> reads and writes: the set \<^verbatim>\<open>visited\<close>, the grid and the
  list \<^verbatim>\<open>revealed\<close>.
\<close>

record floodState =
  visited :: "(int \<times> int) set"
  fgrid :: grid
  revealedList :: "update list"

text \<open>
  \<^verbatim>\<open>flood\<close>, written twice in server.js with the same body (in \<^verbatim>\<open>revealCell\<close> and in
  \<^verbatim>\<open>revealCellWithFlood\<close>). The first argument is the number of nested calls the call
  stack still allows; \<open>floodNeighbors\<close> is the pair of loops over \<open>dy\<close> and \<open>dx\<close>.
\<close>

fun flood :: "config \<Rightarrow> nat \<Rightarrow> int \<Rightarrow> int \<Rightarrow> floodState \<Rightarrow> error + floodState"
  and floodNeighbors :: "config \<Rightarrow> nat \<Rightarrow> int \<Rightarrow> int \<Rightarrow> (int \<times> int) list \<Rightarrow> floodState \<Rightarrow> error + floodState"
where
  "flood conf 0 gx gy s = Inl RangeError"
| "flood conf (Suc depth) gx gy s =
     (if (gx, gy) \<in> visited s then Inr s
      else
        let s1 = s\<lparr>visited := insert (gx, gy) (visited s)\<rparr> in
        (case cellAt (fgrid s1) gx gy of
           Inl e \<Rightarrow> Inl e
         | Inr c \<Rightarrow>
             if revealed c \<or> flagged c then Inr s1
             else
               let c' = c\<lparr>revealed := True\<rparr>;
                   s2 = s1\<lparr>fgrid := setCell (fgrid s1) gx gy c',
                           revealedList := revealedList s1 @ [mkUpdate conf gx gy c']\<rparr>
               in if adjacentMines c' = 0 \<and> \<not> hasMine c'
                  then floodNeighbors conf depth gx gy offsets s2
                  else Inr s2))"
| "floodNeighbors conf depth gx gy [] s = Inr s"
| "floodNeighbors conf depth gx gy ((dx, dy) # ds) s =
     (let nx = gx + dx; ny = gy + dy in
      if inBounds conf nx ny then
        (case cellAt (fgrid s) nx ny of
           Inl e \<Rightarrow> Inl e
         | Inr n \<Rightarrow>
             if \<not> revealed n \<and> \<not> flagged n \<and> \<not> hasMine n then
               (case flood conf depth nx ny s of
                  Inl e \<Rightarrow> Inl e
                | Inr s' \<Rightarrow> floodNeighbors conf depth gx gy ds s')
             else floodNeighbors conf depth gx gy ds s)
      else floodNeighbors conf depth gx gy ds s)"

definition revealCell ::
  "config \<Rightarrow> nat \<Rightarrow> int \<Rightarrow> int \<Rightarrow> int \<Rightarrow> int \<Rightarrow> world \<Rightarrow> error + update list \<times> world" where
  "revealCell conf depth cx cy lx ly w =
     (let globalX = cx * CHUNK_SIZE conf + lx; globalY = cy * CHUNK_SIZE conf + ly in
      if globalX < 0 \<or> globalX \<ge> GRID_WIDTH conf \<or> globalY < 0 \<or> globalY \<ge> GRID_HEIGHT conf
      then Inr ([], w)
      else
        (case cellAt (completeGrid w) globalX globalY of
           Inl e \<Rightarrow> Inl e
         | Inr c \<Rightarrow>
             if revealed c \<or> flagged c then Inr ([], w)
             else if adjacentMines c = 0 \<and> \<not> hasMine c then
               (case flood conf depth globalX globalY
                       \<lparr>visited = {}, fgrid = completeGrid w, revealedList = []\<rparr> of
                  Inl e \<Rightarrow> Inl e
                | Inr s \<Rightarrow> Inr (revealedList s, w\<lparr>completeGrid := fgrid s\<rparr>))
             else
               let c' = c\<lparr>revealed := True\<rparr> in
               Inr ([\<lparr>u_cx = cx, u_cy = cy, u_x = lx, u_y = ly, u_cell = c'\<rparr>],
                    w\<lparr>completeGrid := setCell (completeGrid w) globalX globalY c',
                      bombsExploded := (if hasMine c then bombsExploded w + 1 else bombsExploded w)\<rparr>)))"

definition revealCellWithFlood ::
  "config \<Rightarrow> nat \<Rightarrow> int \<Rightarrow> int \<Rightarrow> world \<Rightarrow> error + update list \<times> world" where
  "revealCellWithFlood conf depth globalX globalY w =
     (case cellAt (completeGrid w) globalX globalY of
        Inl e \<Rightarrow> Inl e
      | Inr c \<Rightarrow>
          if revealed c \<or> flagged c then Inr ([], w)
          else if adjacentMines c = 0 \<and> \<not> hasMine c then
            (case flood conf depth globalX globalY
                    \<lparr>visited = {}, fgrid = completeGrid w, revealedList = []\<rparr> of
               Inl e \<Rightarrow> Inl e
             | Inr s \<Rightarrow> Inr (revealedList s, w\<lparr>completeGrid := fgrid s\<rparr>))
          else
            let c' = c\<lparr>revealed := True\<rparr> in
            Inr ([mkUpdate conf globalX globalY c'],
                 w\<lparr>completeGrid := setCell (completeGrid w) globalX globalY c'\<rparr>))"

subsection \<open>Flag and chord (server.js)\<close>

text \<open>The handler of \<^verbatim>\<open>flag_cell\<close>; the option is the \<^verbatim>\<open>cell_update\<close> it emits.\<close>

definition flagCell ::
  "config \<Rightarrow> int \<Rightarrow> int \<Rightarrow> int \<Rightarrow> int \<Rightarrow> world \<Rightarrow> error + update option \<times> world" where
  "flagCell conf cx cy lx ly w =
     (let globalX = cx * CHUNK_SIZE conf + lx; globalY = cy * CHUNK_SIZE conf + ly in
      if globalX < 0 \<or> globalX \<ge> GRID_WIDTH conf \<or> globalY < 0 \<or> globalY \<ge> GRID_HEIGHT conf
      then Inr (None, w)
      else
        (case cellAt (completeGrid w) globalX globalY of
           Inl e \<Rightarrow> Inl e
         | Inr c \<Rightarrow>
             if revealed c then Inr (None, w)
             else
               let c' = c\<lparr>flagged := \<not> flagged c\<rparr> in
               Inr (Some \<lparr>u_cx = cx, u_cy = cy, u_x = lx, u_y = ly, u_cell = c'\<rparr>,
                    w\<lparr>completeGrid := setCell (completeGrid w) globalX globalY c'\<rparr>)))"

text \<open>
  The scan of the eight neighbours in \<^verbatim>\<open>handleChordClick\<close>: the triple is
  \<^verbatim>\<open>(flagCount, revealedMineCount, adjacentCells)\<close>.
\<close>

fun chordScan ::
  "config \<Rightarrow> grid \<Rightarrow> int \<Rightarrow> int \<Rightarrow> (int \<times> int) list \<Rightarrow> int \<times> int \<times> (int \<times> int) list
     \<Rightarrow> error + int \<times> int \<times> (int \<times> int) list" where
  "chordScan conf g gx gy [] acc = Inr acc"
| "chordScan conf g gx gy ((dx, dy) # ds) (flagCount, revealedMineCount, adjacentCells) =
     (let nx = gx + dx; ny = gy + dy in
      if inBounds conf nx ny then
        (case cellAt g nx ny of
           Inl e \<Rightarrow> Inl e
         | Inr n \<Rightarrow>
             if flagged n then
               chordScan conf g gx gy ds (flagCount + 1, revealedMineCount, adjacentCells)
             else if revealed n \<and> hasMine n then
               chordScan conf g gx gy ds (flagCount, revealedMineCount + 1, adjacentCells)
             else if \<not> revealed n then
               chordScan conf g gx gy ds (flagCount, revealedMineCount, adjacentCells @ [(nx, ny)])
             else chordScan conf g gx gy ds (flagCount, revealedMineCount, adjacentCells))
      else chordScan conf g gx gy ds (flagCount, revealedMineCount, adjacentCells))"

text \<open>The loop over \<^verbatim>\<open>adjacentCells\<close> in \<^verbatim>\<open>handleChordClick\<close>.\<close>

fun chordLoop ::
  "config \<Rightarrow> nat \<Rightarrow> (int \<times> int) list \<Rightarrow> update list \<Rightarrow> world \<Rightarrow> error + update list \<times> world" where
  "chordLoop conf depth [] acc w = Inr (acc, w)"
| "chordLoop conf depth ((nx, ny) # cs) acc w =
     (case cellAt (completeGrid w) nx ny of
        Inl e \<Rightarrow> Inl e
      | Inr n \<Rightarrow>
          if hasMine n then
            let n' = n\<lparr>revealed := True\<rparr> in
            chordLoop conf depth cs (acc @ [mkUpdate conf nx ny n'])
              (w\<lparr>completeGrid := setCell (completeGrid w) nx ny n',
                 bombsExploded := bombsExploded w + 1\<rparr>)
          else
            (case revealCellWithFlood conf depth nx ny w of
               Inl e \<Rightarrow> Inl e
             | Inr (floodRevealed, w') \<Rightarrow> chordLoop conf depth cs (acc @ floodRevealed) w'))"

definition handleChordClick ::
  "config \<Rightarrow> nat \<Rightarrow> int \<Rightarrow> int \<Rightarrow> int \<Rightarrow> int \<Rightarrow> world \<Rightarrow> error + update list \<times> world" where
  "handleChordClick conf depth cx cy lx ly w =
     (let globalX = cx * CHUNK_SIZE conf + lx; globalY = cy * CHUNK_SIZE conf + ly in
      if globalX < 0 \<or> globalX \<ge> GRID_WIDTH conf \<or> globalY < 0 \<or> globalY \<ge> GRID_HEIGHT conf
      then Inr ([], w)
      else
        (case cellAt (completeGrid w) globalX globalY of
           Inl e \<Rightarrow> Inl e
         | Inr c \<Rightarrow>
             if \<not> revealed c \<or> adjacentMines c = 0 then Inr ([], w)
             else
               (case chordScan conf (completeGrid w) globalX globalY offsets (0, 0, []) of
                  Inl e \<Rightarrow> Inl e
                | Inr (flagCount, revealedMineCount, adjacentCells) \<Rightarrow>
                    if flagCount + revealedMineCount = adjacentMines c
                    then chordLoop conf depth adjacentCells [] w
                    else Inr ([], w))))"

subsection \<open>The server with lazily created chunks (part_002)\<close>

text \<open>
  part_002 keeps no complete grid: \<^verbatim>\<open>gridChunks\<close> maps a chunk coordinate to a square of
  cells, which \<^verbatim>\<open>getOrCreateChunk\<close> creates, mines and counts at the first request. Its
  constants are written in the file.
\<close>

definition constants_lazy :: config where
  "constants_lazy =
     \<lparr>CHUNK_SIZE = 100, GRID_WIDTH = 400, GRID_HEIGHT = 300, MINE_PERCENTAGE = fl (18 / 100)\<rparr>"

type_synonym chunkStore = "int \<times> int \<Rightarrow> grid option"

definition createEmptyChunk :: "config \<Rightarrow> int \<Rightarrow> int \<Rightarrow> grid" where
  "createEmptyChunk conf cx cy =
     map (\<lambda>ly. map (\<lambda>lx. newCell (cx * CHUNK_SIZE conf + lx) (cy * CHUNK_SIZE conf + ly))
                  [0..CHUNK_SIZE conf - 1])
         [0..CHUNK_SIZE conf - 1]"

text \<open>\<^verbatim>\<open>placeMinesInChunk\<close>: the loop of \<^verbatim>\<open>placeMinesInCompleteGrid\<close> on one chunk.\<close>

definition placeMinesInChunk :: "config \<Rightarrow> (int \<times> int) list \<Rightarrow> grid \<Rightarrow> (error + grid) option" where
  "placeMinesInChunk conf draws ch =
     placeMinesLoop ch 0
       (Math_round (js_times (js_times (Num (of_int (CHUNK_SIZE conf))) (Num (of_int (CHUNK_SIZE conf))))
                             (MINE_PERCENTAGE conf)))
       draws"

text \<open>
  \<^verbatim>\<open>n_chunk[n_y] && n_chunk[n_y][n_x] && n_chunk[n_y][n_x].hasMine\<close>: false when the row or
  the cell is undefined.
\<close>

definition guardedMine :: "grid \<Rightarrow> int \<Rightarrow> int \<Rightarrow> bool" where
  "guardedMine ch lx ly =
     (case js_nth ch ly of
        None \<Rightarrow> False
      | Some row \<Rightarrow> (case js_nth row lx of None \<Rightarrow> False | Some c \<Rightarrow> hasMine c))"

fun countLoop_lazy ::
  "config \<Rightarrow> chunkStore \<Rightarrow> grid \<Rightarrow> int \<Rightarrow> int \<Rightarrow> int \<Rightarrow> int \<Rightarrow> (int \<times> int) list \<Rightarrow> int \<Rightarrow> error + int" where
  "countLoop_lazy conf chunks ch lx ly cx cy [] count = Inr count"
| "countLoop_lazy conf chunks ch lx ly cx cy ((dx, dy) # ds) count =
     (let nx = lx + dx; ny = ly + dy in
      if nx \<ge> 0 \<and> nx < CHUNK_SIZE conf \<and> ny \<ge> 0 \<and> ny < CHUNK_SIZE conf then
        (case cellAt ch nx ny of
           Inl e \<Rightarrow> Inl e
         | Inr c \<Rightarrow> countLoop_lazy conf chunks ch lx ly cx cy ds (if hasMine c then count + 1 else count))
      else
        (let n_cx = cx + nx div CHUNK_SIZE conf; n_cy = cy + ny div CHUNK_SIZE conf in
         case chunks (n_cx, n_cy) of
           None \<Rightarrow> countLoop_lazy conf chunks ch lx ly cx cy ds count
         | Some n_chunk \<Rightarrow>
             (let n_x = js_rem (nx + CHUNK_SIZE conf) (CHUNK_SIZE conf);
                  n_y = js_rem (ny + CHUNK_SIZE conf) (CHUNK_SIZE conf)
              in countLoop_lazy conf chunks ch lx ly cx cy ds
                   (if guardedMine n_chunk n_x n_y then count + 1 else count))))"

definition countAdjacentMines ::
  "config \<Rightarrow> chunkStore \<Rightarrow> grid \<Rightarrow> int \<Rightarrow> int \<Rightarrow> int \<Rightarrow> int \<Rightarrow> error + int" where
  "countAdjacentMines conf chunks ch lx ly cx cy = countLoop_lazy conf chunks ch lx ly cx cy offsets 0"

fun fillLoop :: "config \<Rightarrow> chunkStore \<Rightarrow> int \<Rightarrow> int \<Rightarrow> (int \<times> int) list \<Rightarrow> grid \<Rightarrow> error + grid" where
  "fillLoop conf chunks cx cy [] ch = Inr ch"
| "fillLoop conf chunks cx cy ((lx, ly) # ps) ch =
     (case cellAt ch lx ly of
        Inl e \<Rightarrow> Inl e
      | Inr c \<Rightarrow>
          (case countAdjacentMines conf chunks ch lx ly cx cy of
             Inl e \<Rightarrow> Inl e
           | Inr k \<Rightarrow> fillLoop conf chunks cx cy ps (setCell ch lx ly (c\<lparr>adjacentMines := k\<rparr>))))"

definition fillAdjacentCounts :: "config \<Rightarrow> chunkStore \<Rightarrow> grid \<Rightarrow> int \<Rightarrow> int \<Rightarrow> error + grid" where
  "fillAdjacentCounts conf chunks ch cx cy =
     fillLoop conf chunks cx cy
       (concat (map (\<lambda>ly. map (\<lambda>lx. (lx, ly)) [0..CHUNK_SIZE conf - 1]) [0..CHUNK_SIZE conf - 1])) ch"

text \<open>
  \<^verbatim>\<open>getOrCreateChunk\<close> of part_002. The draws are those of the mine loop of this call;
  \<open>None\<close> says that the loop is still running after the last of them.
\<close>

definition getOrCreateChunk_lazy ::
  "config \<Rightarrow> (int \<times> int) list \<Rightarrow> int \<Rightarrow> int \<Rightarrow> chunkStore \<Rightarrow> (error + grid \<times> chunkStore) option" where
  "getOrCreateChunk_lazy conf draws cx cy chunks =
     (case chunks (cx, cy) of
        Some ch \<Rightarrow> Some (Inr (ch, chunks))
      | None \<Rightarrow>
          (case placeMinesInChunk conf draws (createEmptyChunk conf cx cy) of
             None \<Rightarrow> None
           | Some (Inl e) \<Rightarrow> Some (Inl e)
           | Some (Inr mined) \<Rightarrow>
               (case fillAdjacentCounts conf chunks mined cx cy of
                  Inl e \<Rightarrow> Some (Inl e)
                | Inr ch \<Rightarrow> Some (Inr (ch, chunks((cx, cy) \<mapsto> ch))))))"

text \<open>
  The first statements of \<^verbatim>\<open>revealCell\<close> of part_002, up to the test of the cell it read:
  \<^verbatim>\<open>const chunk = getOrCreateChunk(cx, cy); const cell = chunk[y][x]; if (cell.revealed ...\<close>.
  The result is the cell read, or the error raised.
\<close>

definition revealCell_lazy_target ::
  "config \<Rightarrow> (int \<times> int) list \<Rightarrow> int \<Rightarrow> int \<Rightarrow> int \<Rightarrow> int \<Rightarrow> chunkStore
     \<Rightarrow> (error + cell \<times> chunkStore) option" where
  "revealCell_lazy_target conf draws cx cy lx ly chunks =
     (case getOrCreateChunk_lazy conf draws cx cy chunks of
        None \<Rightarrow> None
      | Some (Inl e) \<Rightarrow> Some (Inl e)
      | Some (Inr (ch, chunks')) \<Rightarrow>
          (case cellAt ch lx ly of Inl e \<Rightarrow> Some (Inl e) | Inr c \<Rightarrow> Some (Inr (c, chunks'))))"

text \<open>The handler of \<^verbatim>\<open>flag_cell\<close> of part_002.\<close>

definition flagCell_lazy ::
  "config \<Rightarrow> (int \<times> int) list \<Rightarrow> int \<Rightarrow> int \<Rightarrow> int \<Rightarrow> int \<Rightarrow> chunkStore
     \<Rightarrow> (error + update option \<times> chunkStore) option" where
  "flagCell_lazy conf draws cx cy lx ly chunks =
     (case getOrCreateChunk_lazy conf draws cx cy chunks of
        None \<Rightarrow> None
      | Some (Inl e) \<Rightarrow> Some (Inl e)
      | Some (Inr (ch, chunks')) \<Rightarrow>
          (case cellAt ch lx ly of
             Inl e \<Rightarrow> Some (Inl e)
           | Inr c \<Rightarrow>
               if revealed c then Some (Inr (None, chunks'))
               else
                 let c' = c\<lparr>flagged := \<not> flagged c\<rparr> in
                 Some (Inr (Some \<lparr>u_cx = cx, u_cy = cy, u_x = lx, u_y = ly, u_cell = c'\<rparr>,
                            chunks'((cx, cy) \<mapsto> setCell ch lx ly c')))))"

section \<open>Vocabulary of the properties\<close>

text \<open>
  The grid has \<^verbatim>\<open>GRID_HEIGHT\<close> rows of \<^verbatim>\<open>GRID_WIDTH\<close> cells, as \<^verbatim>\<open>initializeCompleteGrid\<close> builds it.
\<close>

definition wf_grid :: "config \<Rightarrow> grid \<Rightarrow> bool" where
  "wf_grid conf g \<longleftrightarrow>
     length g = nat (GRID_HEIGHT conf) \<and> (\<forall>row \<in> set g. length row = nat (GRID_WIDTH conf))"

text \<open>The coordinates in bounds.\<close>

definition cells :: "config \<Rightarrow> (int \<times> int) set" where
  "cells conf = {(gx, gy). inBounds conf gx gy}"

text \<open>The fields of the cell at a coordinate, false where there is no cell.\<close>

definition revealedIn :: "grid \<Rightarrow> int \<Rightarrow> int \<Rightarrow> bool" where
  "revealedIn g gx gy \<longleftrightarrow> (case cellAt g gx gy of Inl e \<Rightarrow> False | Inr c \<Rightarrow> revealed c)"

definition flaggedIn :: "grid \<Rightarrow> int \<Rightarrow> int \<Rightarrow> bool" where
  "flaggedIn g gx gy \<longleftrightarrow> (case cellAt g gx gy of Inl e \<Rightarrow> False | Inr c \<Rightarrow> flagged c)"

definition mineAt :: "grid \<Rightarrow> int \<Rightarrow> int \<Rightarrow> bool" where
  "mineAt g gx gy \<longleftrightarrow> (case cellAt g gx gy of Inl e \<Rightarrow> False | Inr c \<Rightarrow> hasMine c)"

text \<open>
  What \<^verbatim>\<open>flood\<close> asks of a neighbour before it steps onto it: not revealed, not flagged, no mine.
\<close>

definition floodable :: "grid \<Rightarrow> int \<Rightarrow> int \<Rightarrow> bool" where
  "floodable g gx gy \<longleftrightarrow>
     (case cellAt g gx gy of Inl e \<Rightarrow> False | Inr c \<Rightarrow> \<not> revealed c \<and> \<not> flagged c \<and> \<not> hasMine c)"

text \<open>A cell that \<^verbatim>\<open>flood\<close> expands: count zero and no mine.\<close>

definition zeroCell :: "grid \<Rightarrow> int \<Rightarrow> int \<Rightarrow> bool" where
  "zeroCell g gx gy \<longleftrightarrow>
     (case cellAt g gx gy of Inl e \<Rightarrow> False | Inr c \<Rightarrow> adjacentMines c = 0 \<and> \<not> hasMine c)"

text \<open>A cell with a positive count.\<close>

definition numbered :: "grid \<Rightarrow> int \<Rightarrow> int \<Rightarrow> bool" where
  "numbered g gx gy \<longleftrightarrow> (case cellAt g gx gy of Inl e \<Rightarrow> False | Inr c \<Rightarrow> 0 < adjacentMines c)"

text \<open>
  The cells the flood fill rule reaches from \<open>(sx, sy)\<close>: the start, and every floodable neighbour in bounds of a reached zero cell.
\<close>

inductive_set floodReach :: "config \<Rightarrow> grid \<Rightarrow> int \<Rightarrow> int \<Rightarrow> (int \<times> int) set"
  for conf :: config and g :: grid and sx :: int and sy :: int where
  start: "inBounds conf sx sy \<Longrightarrow> floodable g sx sy \<Longrightarrow> (sx, sy) \<in> floodReach conf g sx sy"
| step: "(gx, gy) \<in> floodReach conf g sx sy \<Longrightarrow> zeroCell g gx gy \<Longrightarrow> (dx, dy) \<in> set offsets \<Longrightarrow>
         inBounds conf (gx + dx) (gy + dy) \<Longrightarrow> floodable g (gx + dx) (gy + dy) \<Longrightarrow>
         (gx + dx, gy + dy) \<in> floodReach conf g sx sy"

text \<open>
  The cell at a coordinate in the grid that is \<open>g\<close> with the cells of \<open>V\<close> revealed.
\<close>

definition markRevealed :: "(int \<times> int) set \<Rightarrow> grid \<Rightarrow> int \<Rightarrow> int \<Rightarrow> error + cell" where
  "markRevealed V g gx gy =
     (case cellAt g gx gy of
        Inl e \<Rightarrow> Inl e
      | Inr c \<Rightarrow> Inr (if (gx, gy) \<in> V then c\<lparr>revealed := True\<rparr> else c))"

text \<open>
  All floodable neighbours in bounds of the cell are in \<open>V\<close>, if the cell is a zero cell.
\<close>

definition expanded :: "config \<Rightarrow> grid \<Rightarrow> (int \<times> int) set \<Rightarrow> int \<Rightarrow> int \<Rightarrow> bool" where
  "expanded conf g V gx gy \<longleftrightarrow>
     (zeroCell g gx gy \<longrightarrow>
       (\<forall>(dx, dy) \<in> set offsets. inBounds conf (gx + dx) (gy + dy) \<longrightarrow>
           floodable g (gx + dx) (gy + dy) \<longrightarrow> (gx + dx, gy + dy) \<in> V))"

text \<open>A set of cells that holds every floodable neighbour of its zero cells.\<close>

definition closedUnder :: "config \<Rightarrow> grid \<Rightarrow> (int \<times> int) set \<Rightarrow> bool" where
  "closedUnder conf g Q \<longleftrightarrow> (\<forall>(gx, gy) \<in> Q. expanded conf g Q gx gy)"

text \<open>
  The state after \<^verbatim>\<open>flood\<close> has marked, revealed and listed the cell \<open>c\<close> at \<open>(gx, gy)\<close>.
\<close>

definition revealStep :: "config \<Rightarrow> int \<Rightarrow> int \<Rightarrow> cell \<Rightarrow> floodState \<Rightarrow> floodState" where
  "revealStep conf gx gy c s =
     s\<lparr>visited := insert (gx, gy) (visited s),
       fgrid := setCell (fgrid s) gx gy (c\<lparr>revealed := True\<rparr>),
       revealedList := revealedList s @ [mkUpdate conf gx gy (c\<lparr>revealed := True\<rparr>)]\<rparr>"

text \<open>
  The invariant of the flood that started at \<open>(sx, sy)\<close> in the grid \<open>g\<close>: the visited cells are the listed cells, each listed once, all reached by the rule; the grid is \<open>g\<close> with the visited cells revealed; every listed snapshot is the cell of the grid.
\<close>

definition floodInv :: "config \<Rightarrow> grid \<Rightarrow> int \<Rightarrow> int \<Rightarrow> floodState \<Rightarrow> bool" where
  "floodInv conf g sx sy s \<longleftrightarrow>
     wf_grid conf (fgrid s) \<and>
     visited s = set (map (updatePos conf) (revealedList s)) \<and>
     distinct (map (updatePos conf) (revealedList s)) \<and>
     visited s \<subseteq> floodReach conf g sx sy \<and>
     (\<forall>gx gy. inBounds conf gx gy \<longrightarrow> cellAt (fgrid s) gx gy = markRevealed (visited s) g gx gy) \<and>
     (\<forall>u \<in> set (revealedList s).
        cellAt (fgrid s) (fst (updatePos conf u)) (snd (updatePos conf u)) = Inr (u_cell u))"

text \<open>
  What a call of \<^verbatim>\<open>flood\<close> or of its loops guarantees: the invariant, a larger visited set, and every cell it visited is expanded.
\<close>

definition floodPost :: "config \<Rightarrow> grid \<Rightarrow> int \<Rightarrow> int \<Rightarrow> floodState \<Rightarrow> floodState \<Rightarrow> bool" where
  "floodPost conf g sx sy s s' \<longleftrightarrow>
     floodInv conf g sx sy s' \<and> visited s \<subseteq> visited s' \<and>
     (\<forall>(gx, gy) \<in> visited s' - visited s. expanded conf g (visited s') gx gy)"

text \<open>
  The list \<open>outs\<close> names each cell of \<open>P\<close> once and no other; the cells of \<open>P\<close> were in bounds and unrevealed in \<open>g\<close>; \<open>g'\<close> is \<open>g\<close> with exactly the cells of \<open>P\<close> revealed; every snapshot of the list is the cell of \<open>g'\<close>.
\<close>

definition revealsExactly :: "config \<Rightarrow> grid \<Rightarrow> (int \<times> int) set \<Rightarrow> update list \<Rightarrow> grid \<Rightarrow> bool" where
  "revealsExactly conf g P outs g' \<longleftrightarrow>
     wf_grid conf g' \<and>
     distinct (map (updatePos conf) outs) \<and>
     set (map (updatePos conf) outs) = P \<and>
     (\<forall>(gx, gy) \<in> P. inBounds conf gx gy \<and> \<not> revealedIn g gx gy) \<and>
     (\<forall>gx gy. inBounds conf gx gy \<longrightarrow> cellAt g' gx gy = markRevealed P g gx gy) \<and>
     (\<forall>u \<in> set outs. cellAt g' (fst (updatePos conf u)) (snd (updatePos conf u)) = Inr (u_cell u))"

text \<open>
  The cells a reveal request on \<open>(gx, gy)\<close> reveals: none outside the bounds or on a revealed or flagged cell, the flood from a zero cell, the cell alone otherwise.
\<close>

definition revealSet :: "config \<Rightarrow> grid \<Rightarrow> int \<Rightarrow> int \<Rightarrow> (int \<times> int) set" where
  "revealSet conf g gx gy =
     (if \<not> inBounds conf gx gy \<or> revealedIn g gx gy \<or> flaggedIn g gx gy then {}
      else if zeroCell g gx gy then floodReach conf g gx gy
      else {(gx, gy)})"

text \<open>
  The call returned: a list and a world whose grid are related to \<open>g\<close> as above, \<open>b\<close> more exploded mines, the same chunk map.
\<close>

definition revealOutcome ::
  "config \<Rightarrow> grid \<Rightarrow> world \<Rightarrow> (int \<times> int) set \<Rightarrow> int \<Rightarrow> error + update list \<times> world \<Rightarrow> bool" where
  "revealOutcome conf g w P b res \<longleftrightarrow>
     (case res of
        Inl e \<Rightarrow> False
      | Inr (outs, w') \<Rightarrow>
          gridChunks w' = gridChunks w \<and> bombsExploded w' = bombsExploded w + b \<and>
          revealsExactly conf g P outs (completeGrid w'))"

text \<open>
  The eight neighbours of a cell in the order of the loops, and among those in bounds the flagged ones, the unflagged revealed ones with a mine, and the candidates (neither flagged nor revealed): the partition of \<^verbatim>\<open>handleChordClick\<close>.
\<close>

definition neighbours :: "int \<Rightarrow> int \<Rightarrow> (int \<times> int) list" where
  "neighbours gx gy = map (\<lambda>(dx, dy). (gx + dx, gy + dy)) offsets"

definition chordFlagged :: "config \<Rightarrow> grid \<Rightarrow> int \<Rightarrow> int \<Rightarrow> (int \<times> int) list" where
  "chordFlagged conf g gx gy =
     filter (\<lambda>(nx, ny). inBounds conf nx ny \<and> flaggedIn g nx ny) (neighbours gx gy)"

definition chordRevealedMines :: "config \<Rightarrow> grid \<Rightarrow> int \<Rightarrow> int \<Rightarrow> (int \<times> int) list" where
  "chordRevealedMines conf g gx gy =
     filter (\<lambda>(nx, ny). inBounds conf nx ny \<and> \<not> flaggedIn g nx ny \<and> revealedIn g nx ny \<and> mineAt g nx ny)
       (neighbours gx gy)"

definition chordCandidates :: "config \<Rightarrow> grid \<Rightarrow> int \<Rightarrow> int \<Rightarrow> (int \<times> int) list" where
  "chordCandidates conf g gx gy =
     filter (\<lambda>(nx, ny). inBounds conf nx ny \<and> \<not> flaggedIn g nx ny \<and> \<not> revealedIn g nx ny)
       (neighbours gx gy)"

text \<open>
  What a chord reveals from the candidates \<open>cs\<close>: every candidate with a mine, and for every candidate without a mine what a reveal request on it reveals.
\<close>

definition chordSetOf :: "config \<Rightarrow> grid \<Rightarrow> (int \<times> int) list \<Rightarrow> (int \<times> int) set" where
  "chordSetOf conf g cs =
     {(nx, ny). (nx, ny) \<in> set cs \<and> mineAt g nx ny} \<union>
     (\<Union>(nx, ny) \<in> set cs. if mineAt g nx ny then {} else revealSet conf g nx ny)"

text \<open>
  The number of flagged neighbours plus the number of revealed neighbours with a mine is the count of the cell.
\<close>

definition chordMatches :: "config \<Rightarrow> grid \<Rightarrow> int \<Rightarrow> int \<Rightarrow> bool" where
  "chordMatches conf g gx gy \<longleftrightarrow>
     (case cellAt g gx gy of
        Inl e \<Rightarrow> False
      | Inr c \<Rightarrow> int (length (chordFlagged conf g gx gy)) + int (length (chordRevealedMines conf g gx gy))
                 = adjacentMines c)"

text \<open>The target of a chord: in bounds, revealed, with a count other than zero.\<close>

definition chordable :: "config \<Rightarrow> grid \<Rightarrow> int \<Rightarrow> int \<Rightarrow> bool" where
  "chordable conf g gx gy \<longleftrightarrow>
     inBounds conf gx gy \<and>
     (case cellAt g gx gy of Inl e \<Rightarrow> False | Inr c \<Rightarrow> revealed c \<and> adjacentMines c \<noteq> 0)"

text \<open>
  The neighbours in bounds with a mine, and the invariant of the counts: every count is the number of these neighbours.
\<close>

definition mineNeighbours :: "config \<Rightarrow> grid \<Rightarrow> int \<Rightarrow> int \<Rightarrow> (int \<times> int) set" where
  "mineNeighbours conf g gx gy =
     {(nx, ny). inBounds conf nx ny \<and> (nx - gx, ny - gy) \<in> set offsets \<and> mineAt g nx ny}"

definition adjInv :: "config \<Rightarrow> grid \<Rightarrow> bool" where
  "adjInv conf g \<longleftrightarrow>
     (\<forall>gx gy. inBounds conf gx gy \<longrightarrow>
        (case cellAt g gx gy of
           Inl e \<Rightarrow> False
         | Inr c \<Rightarrow> adjacentMines c = int (card (mineNeighbours conf g gx gy))))"

text \<open>The number of cells with a mine, as the loops of \<^verbatim>\<open>/flagged-stats\<close> count it.\<close>

definition totalMines :: "grid \<Rightarrow> nat" where
  "totalMines g = length (filter hasMine (concat g))"

text \<open>The cells of \<open>Z\<close> that a walk over neighbouring cells of \<open>Z\<close> reaches from \<open>(sx, sy)\<close>.\<close>

inductive_set regionFrom :: "(int \<times> int) set \<Rightarrow> int \<Rightarrow> int \<Rightarrow> (int \<times> int) set"
  for Z :: "(int \<times> int) set" and sx :: int and sy :: int where
  start: "(sx, sy) \<in> Z \<Longrightarrow> (sx, sy) \<in> regionFrom Z sx sy"
| step: "(gx, gy) \<in> regionFrom Z sx sy \<Longrightarrow> (dx, dy) \<in> set offsets \<Longrightarrow> (gx + dx, gy + dy) \<in> Z \<Longrightarrow>
         (gx + dx, gy + dy) \<in> regionFrom Z sx sy"

text \<open>
  \<open>Z\<close> is a region of contiguous zero cells around \<open>(sx, sy)\<close>: cells in bounds without a
  mine and with count zero, unrevealed and unflagged, connected over neighbours inside
  \<open>Z\<close>, and every neighbour in bounds of a cell of \<open>Z\<close> that is outside \<open>Z\<close> has a positive
  count.
\<close>

definition zeroRegion :: "config \<Rightarrow> grid \<Rightarrow> (int \<times> int) set \<Rightarrow> int \<Rightarrow> int \<Rightarrow> bool" where
  "zeroRegion conf g Z sx sy \<longleftrightarrow>
     (sx, sy) \<in> Z \<and>
     (\<forall>(gx, gy) \<in> Z. inBounds conf gx gy \<and> zeroCell g gx gy \<and> \<not> revealedIn g gx gy \<and> \<not> flaggedIn g gx gy) \<and>
     Z \<subseteq> regionFrom Z sx sy \<and>
     (\<forall>(gx, gy) \<in> Z. \<forall>(dx, dy) \<in> set offsets.
        inBounds conf (gx + dx) (gy + dy) \<longrightarrow> (gx + dx, gy + dy) \<notin> Z \<longrightarrow> numbered g (gx + dx) (gy + dy))"

text \<open>The unrevealed, unflagged cells in bounds that are outside \<open>Z\<close> and touch a cell of \<open>Z\<close>.\<close>

definition regionBorder :: "config \<Rightarrow> grid \<Rightarrow> (int \<times> int) set \<Rightarrow> (int \<times> int) set" where
  "regionBorder conf g Z =
     {(nx, ny). inBounds conf nx ny \<and> (nx, ny) \<notin> Z \<and> \<not> revealedIn g nx ny \<and> \<not> flaggedIn g nx ny \<and>
                (\<exists>(dx, dy) \<in> set offsets. (nx - dx, ny - dy) \<in> Z)}"

section \<open>Small worlds for the examples\<close>

text \<open>
  A world of four columns and three rows with chunks of two by two cells and a mine
  percentage of \<^verbatim>\<open>0.08\<close>: one mine, which the draw \<open>(3, 2)\<close> puts into the last cell of the
  last row.
\<close>

definition testConf :: config where
  "testConf = \<lparr>CHUNK_SIZE = 2, GRID_WIDTH = 4, GRID_HEIGHT = 3, MINE_PERCENTAGE = fl (8 / 100)\<rparr>"

definition testGrid :: grid where
  "testGrid = (case initializeCompleteGrid testConf [(3, 2)] of Some (Inr g) \<Rightarrow> g | _ \<Rightarrow> [])"

definition testWorld :: world where
  "testWorld = \<lparr>completeGrid = testGrid, gridChunks = (\<lambda>k. None), bombsExploded = 0\<rparr>"

text \<open>
  A client asks for chunk \<open>(1, 1)\<close>, the cell \<open>(2, 2)\<close> is revealed, the chunk is asked for
  again: the first cell of the second answer of server.js, the cell of the grid, and the
  first cell of the answer of part_001.
\<close>

definition staleChunkScenario :: "(jsobj \<times> (error + cell) \<times> jsobj) option" where
  "staleChunkScenario =
     (case getOrCreateChunk testConf 1 1 testWorld of
        Inl e \<Rightarrow> None
      | Inr (first, w1) \<Rightarrow>
          (case revealCell testConf 13 1 1 0 0 w1 of
             Inl e \<Rightarrow> None
           | Inr (outs, w2) \<Rightarrow>
               (case getOrCreateChunk testConf 1 1 w2 of
                  Inl e \<Rightarrow> None
                | Inr (second, w3) \<Rightarrow>
                    (case getOrCreateChunk_fresh testConf 1 1 w2 of
                       Inl e \<Rightarrow> None
                     | Inr (fresh, w4) \<Rightarrow>
                         Some (second ! 0 ! 0, cellAt (completeGrid w3) 2 2, fresh ! 0 ! 0)))))"

text \<open>
  The small world after three requests: the mine \<open>(3, 2)\<close> and the corner \<open>(0, 0)\<close> are
  flagged, the numbered cell \<open>(2, 2)\<close> is revealed.
\<close>

definition playedWorld :: world where
  "playedWorld =
     (case flagCell testConf 1 1 1 0 testWorld of
        Inl e \<Rightarrow> testWorld
      | Inr (u1, w1) \<Rightarrow>
          (case flagCell testConf 0 0 0 0 w1 of
             Inl e \<Rightarrow> testWorld
           | Inr (u2, w2) \<Rightarrow>
               (case revealCell testConf 13 1 1 0 0 w2 of
                  Inl e \<Rightarrow> testWorld
                | Inr (outs, w3) \<Rightarrow> w3)))"

text \<open>The region of zero cells of the small world and the start of the flood in it.\<close>

definition testRegion :: "(int \<times> int) set" where
  "testRegion = {(0, 0), (1, 0), (2, 0), (3, 0), (0, 1), (1, 1), (0, 2), (1, 2)}"

text \<open>
  A small instance of part_002: chunks of two by two cells with one mine each. Chunk
  \<open>(0, 0)\<close> is created first, then chunk \<open>(1, 0)\<close> with its mine in the column next to chunk
  \<open>(0, 0)\<close>. The result is the count stored in the cell \<open>(1, 0)\<close> of chunk \<open>(0, 0)\<close> and the count
  that \<^verbatim>\<open>countAdjacentMines\<close> finds for it in the final layout.
\<close>

definition lazyConf :: config where
  "lazyConf = \<lparr>CHUNK_SIZE = 2, GRID_WIDTH = 4, GRID_HEIGHT = 2, MINE_PERCENTAGE = fl (18 / 100)\<rparr>"

definition lazyAdjacencyScenario :: "(int \<times> (error + int)) option" where
  "lazyAdjacencyScenario =
     (case getOrCreateChunk_lazy lazyConf [(0, 0)] 0 0 (\<lambda>k. None) of
        Some (Inr (a, chunks1)) \<Rightarrow>
          (case getOrCreateChunk_lazy lazyConf [(0, 0)] 1 0 chunks1 of
             Some (Inr (b, chunks2)) \<Rightarrow>
               (case chunks2 (0, 0) of
                  Some a' \<Rightarrow>
                    (case cellAt a' 1 0 of
                       Inr c \<Rightarrow> Some (adjacentMines c, countAdjacentMines lazyConf chunks2 a' 1 0 0 0)
                     | Inl e \<Rightarrow> None)
                | None \<Rightarrow> None)
           | _ \<Rightarrow> None)
      | _ \<Rightarrow> None)"

text \<open>
  A corridor: one row of \<open>n\<close> cells without a mine, as \<^verbatim>\<open>initializeCompleteGrid\<close> builds it
  for a mine percentage of zero.
\<close>

definition corridorConf :: "nat \<Rightarrow> config" where
  "corridorConf n = \<lparr>CHUNK_SIZE = 100, GRID_WIDTH = int n, GRID_HEIGHT = 1, MINE_PERCENTAGE = Num 0\<rparr>"

definition corridorWorld :: "nat \<Rightarrow> world" where
  "corridorWorld n =
     \<lparr>completeGrid = emptyGrid (corridorConf n), gridChunks = (\<lambda>k. None), bombsExploded = 0\<rparr>"

section \<open>Properties\<close>

subsection \<open>JavaScript numbers\<close>

lemma js_less_Num: "js_less (Num a) (Num b) \<longleftrightarrow> a < b"
  by (simp add: js_less_def)

lemma js_less_int: "js_less (Num (of_int a)) (Num (of_int b)) \<longleftrightarrow> a < b"
  by (simp add: js_less_def)

lemma js_less_PosInfinity: "js_less (Num a) PosInfinity"
  by (simp add: js_less_def)

lemma js_less_NaN: "\<not> js_less x NaN"
  by (simp add: js_less_def split: jsnum.splits)

lemma roundTiesToEven_of_int: "roundTiesToEven (of_int z) = z"
  by (simp add: roundTiesToEven_def)

lemma roundTiesToEven_nonneg: "0 \<le> x \<Longrightarrow> 0 \<le> roundTiesToEven x"
  by (auto simp: roundTiesToEven_def Let_def)

lemma fl_nonneg:
  assumes "0 \<le> q"
  shows "fl q = PosInfinity \<or> (\<exists>r. fl q = Num r \<and> 0 \<le> r)"
proof (cases "q = 0")
  case True
  then show ?thesis by (simp add: fl_def)
next
  case False
  then have q: "0 < q" using assms by simp
  define e where "e = max (ilog2 \<bar>q\<bar> - 52) (- 1074)"
  define m where "m = roundTiesToEven (\<bar>q\<bar> / 2 powi e)"
  have "0 \<le> \<bar>q\<bar> / 2 powi e" by simp
  then have m: "0 \<le> m" unfolding m_def by (rule roundTiesToEven_nonneg)
  have "0 \<le> sgn q * (of_int m * 2 powi e)" using q m by simp
  then show ?thesis using q False unfolding fl_def Let_def e_def[symmetric] m_def[symmetric] by auto
qed

lemma fl_nonpos:
  assumes "q \<le> 0"
  shows "fl q = NegInfinity \<or> (\<exists>r. fl q = Num r \<and> r \<le> 0)"
proof (cases "q = 0")
  case True
  then show ?thesis by (simp add: fl_def)
next
  case False
  then have q: "q < 0" using assms by simp
  define e where "e = max (ilog2 \<bar>q\<bar> - 52) (- 1074)"
  define m where "m = roundTiesToEven (\<bar>q\<bar> / 2 powi e)"
  have "0 \<le> \<bar>q\<bar> / 2 powi e" by simp
  then have m: "0 \<le> m" unfolding m_def by (rule roundTiesToEven_nonneg)
  have "0 \<le> of_int m * (2::rat) powi e" using m by simp
  then have "sgn q * (of_int m * 2 powi e) \<le> 0" using q by (simp add: mult_le_0_iff)
  then show ?thesis using q False unfolding fl_def Let_def e_def[symmetric] m_def[symmetric] by auto
qed

lemma fl_of_int:
  assumes "0 \<le> n" "n \<le> 2 ^ 53"
  shows "fl (of_int n) = Num (of_int n)"
proof (cases "n = 0")
  case True
  then show ?thesis by (simp add: fl_def)
next
  case False
  then have n: "0 < n" using assms by simp
  define k where "k = bitlen n - 1"
  have b: "2 ^ nat (bitlen n - 1) \<le> n" "n < 2 ^ nat (bitlen n)" using bitlen_bounds[OF n] by simp_all
  have b1: "1 \<le> bitlen n" using n by (simp add: bitlen_alt_def)
  have k0: "0 \<le> k" using b1 by (simp add: k_def)
  have "(2::int) ^ nat k \<le> 2 ^ 53" using b(1) assms(2) by (simp add: k_def)
  then have "nat k \<le> 53" by (rule power_le_imp_le_exp[rotated]) simp
  then have k53: "k \<le> 53" using k0 by simp
  have il: "ilog2 \<bar>of_int n\<bar> = k" using n by (simp add: ilog2_def k_def)
  have e: "max (ilog2 \<bar>of_int n\<bar> - 52) (- 1074) = k - 52" using il k0 by simp
  show ?thesis
  proof (cases "k \<le> 52")
    case True
    define j where "j = nat (52 - k)"
    have pe: "(2::rat) powi (k - 52) = 1 / 2 ^ j"
      using True by (simp add: power_int_def j_def inverse_eq_divide power_one_over)
    have "\<bar>rat_of_int n\<bar> / 2 powi (k - 52) = of_int (n * 2 ^ j)" using n by (simp add: pe)
    then have m: "roundTiesToEven (\<bar>rat_of_int n\<bar> / 2 powi (k - 52)) = n * 2 ^ j"
      by (simp only: roundTiesToEven_of_int)
    have bl: "bitlen (n * 2 ^ j) = bitlen n + int j" by (rule bitlen_pow2[OF n])
    have "k - 52 + bitlen (n * 2 ^ j) = k + 1" using bl True by (simp add: j_def k_def)
    then have no: "\<not> 1024 < k - 52 + bitlen (n * 2 ^ j)" using k53 by simp
    have v: "sgn (rat_of_int n) * (of_int (n * 2 ^ j) * 2 powi (k - 52)) = of_int n" using n by (simp add: pe)
    show ?thesis using False no v unfolding fl_def Let_def e m by simp
  next
    case False
    then have k: "k = 53" using k53 by simp
    have n53: "n = 2 ^ 53" using b(1) assms(2) k by (simp add: k_def)
    have "\<bar>rat_of_int n\<bar> / 2 powi (53 - 52) = of_int (2 ^ 52)" by (simp add: n53)
    then have m: "roundTiesToEven (\<bar>rat_of_int n\<bar> / 2 powi (53 - 52)) = 2 ^ 52"
      by (simp only: roundTiesToEven_of_int)
    have "bitlen (1 * 2 ^ 52) = bitlen 1 + int 52" by (rule bitlen_pow2) simp
    moreover have "bitlen 1 = 1" by (simp add: bitlen_alt_def)
    ultimately have bl: "bitlen (2 ^ 52) = 53" by simp
    have v: "sgn (rat_of_int n) * (of_int (2 ^ 52) * 2 powi (53 - 52)) = of_int n" by (simp add: n53)
    show ?thesis using n bl v unfolding fl_def Let_def e k m by simp
  qed
qed

lemma roundTiesToEven_near: "\<bar>of_int (roundTiesToEven x) - x\<bar> \<le> 1 / 2"
proof -
  define f where "f = \<lfloor>x\<rfloor>"
  define d where "d = x - of_int f"
  have d: "0 \<le> d" "d < 1" unfolding d_def f_def by linarith+
  have x: "x = of_int f + d" by (simp add: d_def)
  show ?thesis
    unfolding roundTiesToEven_def Let_def f_def[symmetric] d_def[symmetric]
    using d by (auto simp: x)
qed

text \<open>
  A finite result of the rounding is within half a unit of the last place of the exact
  value.
\<close>

lemma fl_half_ulp:
  assumes "fl q = Num r"
  shows "\<bar>r - q\<bar> \<le> 2 powi (max (ilog2 \<bar>q\<bar> - 52) (- 1074)) / 2"
proof (cases "q = 0")
  case True
  then show ?thesis using assms by (simp add: fl_def)
next
  case False
  define e where "e = max (ilog2 \<bar>q\<bar> - 52) (- 1074)"
  define m where "m = roundTiesToEven (\<bar>q\<bar> / 2 powi e)"
  have p: "(0::rat) < 2 powi e" by simp
  from assms False have r: "r = sgn q * (of_int m * 2 powi e)"
    unfolding fl_def Let_def e_def[symmetric] m_def[symmetric] by (simp split: if_splits)
  have "q = sgn q * \<bar>q\<bar>" by (simp add: sgn_mult_abs)
  then have "r - q = sgn q * (of_int m * 2 powi e - \<bar>q\<bar>)"
    unfolding r by (metis right_diff_distrib)
  then have 1: "\<bar>r - q\<bar> = \<bar>of_int m * 2 powi e - \<bar>q\<bar>\<bar>"
    using False by (simp add: abs_mult)
  have "of_int m * 2 powi e - \<bar>q\<bar> = (of_int m - \<bar>q\<bar> / 2 powi e) * 2 powi e"
    using p by (simp add: left_diff_distrib)
  then have 2: "\<bar>of_int m * 2 powi e - \<bar>q\<bar>\<bar> = \<bar>of_int m - \<bar>q\<bar> / 2 powi e\<bar> * 2 powi e"
    using p by (simp add: abs_mult)
  have "\<bar>of_int m - \<bar>q\<bar> / 2 powi e\<bar> * 2 powi e \<le> 1 / 2 * 2 powi e"
    using roundTiesToEven_near[of "\<bar>q\<bar> / 2 powi e"] p unfolding m_def
    by (intro mult_right_mono) simp_all
  then show ?thesis unfolding 1 2 by (simp add: e_def)
qed

text \<open>
  Products and roundings of the code: the number of mines for the constants of
  \<^verbatim>\<open>constants.js\<close> and for the constants and the chunk of part_002, and three products
  whose double differs from the exact product of the factors, alone and as the number of
  mines of a grid.
\<close>

lemma mineCount_examples:
  "mineCount constants = Num 95200"
  "Math_round (js_times (js_times (Num 100) (Num 100)) (MINE_PERCENTAGE constants_lazy)) = Num 1800"
  "js_times (Num 100) (fl (145 / 1000)) = Num (8162774324609023 / 562949953421312)"
  "Math_round (js_times (Num 100) (fl (145 / 1000))) = Num 14"
  "Math_round (js_times (Num 3) (fl (16666666666666666 / 100000000000000000))) = Num 1"
  "Math_round (js_times (Num 10) (fl (15 / 100))) = Num 2"
  "mineCount \<lparr>CHUNK_SIZE = 100, GRID_WIDTH = 10, GRID_HEIGHT = 10, MINE_PERCENTAGE = fl (145 / 1000)\<rparr>
     = Num 14"
  "mineCount \<lparr>CHUNK_SIZE = 100, GRID_WIDTH = 3, GRID_HEIGHT = 1,
               MINE_PERCENTAGE = fl (16666666666666666 / 100000000000000000)\<rparr> = Num 1"
  "mineCount \<lparr>CHUNK_SIZE = 100, GRID_WIDTH = 10, GRID_HEIGHT = 1, MINE_PERCENTAGE = fl (15 / 100)\<rparr>
     = Num 2"
  by code_simp+

lemma Math_round_Num: "Math_round (Num q) = Num (of_int \<lfloor>q + 1 / 2\<rfloor>)"
  by (simp add: Math_round_def)

lemma js_times_Num: "js_times (Num a) (Num b) = fl (a * b)"
  by (simp add: js_times_def)

subsection \<open>The small world\<close>

lemma testGrid_init: "initializeCompleteGrid testConf [(3, 2)] = Some (Inr testGrid)"
  by code_simp

text \<open>The small world, cell by cell.\<close>

lemma testGrid_cells [code]:
  "testGrid =
     [[newCell 0 0, newCell 1 0, newCell 2 0, newCell 3 0],
      [newCell 0 1, newCell 1 1, (newCell 2 1)\<lparr>adjacentMines := 1\<rparr>, (newCell 3 1)\<lparr>adjacentMines := 1\<rparr>],
      [newCell 0 2, newCell 1 2, (newCell 2 2)\<lparr>adjacentMines := 1\<rparr>, (newCell 3 2)\<lparr>hasMine := True\<rparr>]]"
  by code_simp

lemma wf_testGrid: "wf_grid testConf testGrid"
  by code_simp

subsection \<open>Grid access\<close>

lemma cellAt_wf:
  assumes "wf_grid conf g" "inBounds conf gx gy"
  shows "cellAt g gx gy = Inr (g ! nat gy ! nat gx)"
  using assms unfolding wf_grid_def inBounds_def cellAt_def js_nth_def
  by (auto simp: nat_less_iff)

lemma cellAt_wf_ex:
  assumes "wf_grid conf g" "inBounds conf gx gy"
  shows "\<exists>c. cellAt g gx gy = Inr c"
  using cellAt_wf[OF assms] by blast

lemma wf_grid_setCell:
  assumes "wf_grid conf g"
  shows "wf_grid conf (setCell g gx gy c)"
proof (cases "nat gy < length g")
  case True
  then have "g ! nat gy \<in> set g" by simp
  then have "length ((g ! nat gy)[nat gx := c]) = nat (GRID_WIDTH conf)"
    using assms unfolding wf_grid_def by simp
  then show ?thesis
    using assms unfolding wf_grid_def setCell_def
    by (auto dest!: set_update_subset_insert[THEN subsetD])
next
  case False
  then show ?thesis using assms unfolding setCell_def by (simp add: list_update_beyond)
qed

lemma cellAt_setCell:
  assumes "wf_grid conf g" "inBounds conf gx gy" "inBounds conf nx ny"
  shows "cellAt (setCell g gx gy c) nx ny = (if nx = gx \<and> ny = gy then Inr c else cellAt g nx ny)"
proof -
  have w: "wf_grid conf (setCell g gx gy c)" by (rule wf_grid_setCell[OF assms(1)])
  have l: "nat gy < length g" "nat ny < length g"
    using assms unfolding wf_grid_def inBounds_def by (auto simp: nat_less_iff)
  then have "g ! nat gy \<in> set g" "g ! nat ny \<in> set g" by simp_all
  then have l2: "nat gx < length (g ! nat gy)" "nat nx < length (g ! nat ny)"
    using assms unfolding wf_grid_def inBounds_def by (auto simp: nat_less_iff)
  have e: "nat nx = nat gx \<longleftrightarrow> nx = gx" "nat ny = nat gy \<longleftrightarrow> ny = gy"
    using assms unfolding inBounds_def by auto
  have a: "cellAt (setCell g gx gy c) nx ny = Inr (setCell g gx gy c ! nat ny ! nat nx)"
    by (rule cellAt_wf[OF w assms(3)])
  have b: "cellAt g nx ny = Inr (g ! nat ny ! nat nx)"
    by (rule cellAt_wf[OF assms(1) assms(3)])
  have "setCell g gx gy c ! nat ny ! nat nx = (if nx = gx \<and> ny = gy then c else g ! nat ny ! nat nx)"
    using l l2 e by (auto simp: setCell_def nth_list_update)
  then show ?thesis using a b by simp
qed

lemma floodReach_inBounds: "(gx, gy) \<in> floodReach conf g sx sy \<Longrightarrow> inBounds conf gx gy"
  by (induction rule: floodReach.induct) auto

lemma floodReach_floodable: "(gx, gy) \<in> floodReach conf g sx sy \<Longrightarrow> floodable g gx gy"
  by (induction rule: floodReach.induct) auto

lemma js_rem_nonneg:
  assumes "0 \<le> a" "0 < b"
  shows "js_rem a b = a mod b"
  using assms by (cases "a = 0") (simp_all add: js_rem_def)

lemma updatePos_mkUpdate:
  assumes "0 < CHUNK_SIZE conf" "0 \<le> gx" "0 \<le> gy"
  shows "updatePos conf (mkUpdate conf gx gy c) = (gx, gy)"
  using assms by (simp add: updatePos_def mkUpdate_def js_rem_nonneg)

lemma floodInv_wf: "floodInv conf g sx sy s \<Longrightarrow> wf_grid conf (fgrid s)"
  unfolding floodInv_def by blast

lemma floodInv_visited:
  "floodInv conf g sx sy s \<Longrightarrow> visited s = set (map (updatePos conf) (revealedList s))"
  unfolding floodInv_def by blast

lemma floodInv_distinct:
  "floodInv conf g sx sy s \<Longrightarrow> distinct (map (updatePos conf) (revealedList s))"
  unfolding floodInv_def by blast

lemma floodInv_sub: "floodInv conf g sx sy s \<Longrightarrow> visited s \<subseteq> floodReach conf g sx sy"
  unfolding floodInv_def by blast

lemma floodInv_cell:
  "floodInv conf g sx sy s \<Longrightarrow> inBounds conf gx gy \<Longrightarrow>
     cellAt (fgrid s) gx gy = markRevealed (visited s) g gx gy"
  unfolding floodInv_def by blast

lemma floodInv_ucell:
  "floodInv conf g sx sy s \<Longrightarrow> u \<in> set (revealedList s) \<Longrightarrow>
     cellAt (fgrid s) (fst (updatePos conf u)) (snd (updatePos conf u)) = Inr (u_cell u)"
  unfolding floodInv_def by blast

lemma flood_visited: "(gx, gy) \<in> visited s \<Longrightarrow> flood conf (Suc depth) gx gy s = Inr s"
  by simp

lemma flood_new:
  assumes "(gx, gy) \<notin> visited s" "cellAt (fgrid s) gx gy = Inr c" "\<not> revealed c" "\<not> flagged c"
  shows "flood conf (Suc depth) gx gy s =
           (if adjacentMines c = 0 \<and> \<not> hasMine c
            then floodNeighbors conf depth gx gy offsets (revealStep conf gx gy c s)
            else Inr (revealStep conf gx gy c s))"
  using assms by (simp add: Let_def revealStep_def)

lemma floodInv_revealStep:
  assumes inv: "floodInv conf g sx sy s" and wf: "wf_grid conf g" and S: "0 < CHUNK_SIZE conf"
    and r: "(gx, gy) \<in> floodReach conf g sx sy" and nv: "(gx, gy) \<notin> visited s"
    and c: "cellAt (fgrid s) gx gy = Inr c"
  shows "floodInv conf g sx sy (revealStep conf gx gy c s)"
proof -
  have ib: "inBounds conf gx gy" using r by (rule floodReach_inBounds)
  then have nn: "0 \<le> gx" "0 \<le> gy" by (auto simp: inBounds_def)
  have up: "updatePos conf (mkUpdate conf gx gy (c\<lparr>revealed := True\<rparr>)) = (gx, gy)"
    by (rule updatePos_mkUpdate[OF S nn])
  have wfs: "wf_grid conf (fgrid s)" using inv by (rule floodInv_wf)
  have pw: "\<And>x y. inBounds conf x y \<Longrightarrow> cellAt (fgrid s) x y = markRevealed (visited s) g x y"
    using inv by (rule floodInv_cell)
  have cg: "cellAt g gx gy = Inr c"
    using pw[OF ib] c nv by (auto simp: markRevealed_def split: sum.splits)
  have set': "\<And>x y. inBounds conf x y \<Longrightarrow>
      cellAt (setCell (fgrid s) gx gy (c\<lparr>revealed := True\<rparr>)) x y =
        (if x = gx \<and> y = gy then Inr (c\<lparr>revealed := True\<rparr>) else cellAt (fgrid s) x y)"
    by (rule cellAt_setCell[OF wfs ib])
  have 1: "wf_grid conf (fgrid (revealStep conf gx gy c s))"
    by (simp add: revealStep_def wf_grid_setCell[OF wfs])
  have 2: "visited (revealStep conf gx gy c s) =
        set (map (updatePos conf) (revealedList (revealStep conf gx gy c s)))"
    using floodInv_visited[OF inv] up by (simp add: revealStep_def)
  have 3: "distinct (map (updatePos conf) (revealedList (revealStep conf gx gy c s)))"
    using floodInv_distinct[OF inv] floodInv_visited[OF inv] up nv by (simp add: revealStep_def)
  have 4: "visited (revealStep conf gx gy c s) \<subseteq> floodReach conf g sx sy"
    using floodInv_sub[OF inv] r by (simp add: revealStep_def)
  have 5: "\<forall>x y. inBounds conf x y \<longrightarrow>
      cellAt (fgrid (revealStep conf gx gy c s)) x y =
        markRevealed (visited (revealStep conf gx gy c s)) g x y"
  proof (intro allI impI)
    fix x y assume xy: "inBounds conf x y"
    show "cellAt (fgrid (revealStep conf gx gy c s)) x y =
        markRevealed (visited (revealStep conf gx gy c s)) g x y"
      using set'[OF xy] pw[OF xy] cg
      by (auto simp: revealStep_def markRevealed_def split: sum.splits)
  qed
  have 6: "\<forall>u \<in> set (revealedList (revealStep conf gx gy c s)).
        cellAt (fgrid (revealStep conf gx gy c s)) (fst (updatePos conf u)) (snd (updatePos conf u))
          = Inr (u_cell u)"
  proof
    fix u assume u: "u \<in> set (revealedList (revealStep conf gx gy c s))"
    show "cellAt (fgrid (revealStep conf gx gy c s)) (fst (updatePos conf u)) (snd (updatePos conf u))
          = Inr (u_cell u)"
    proof (cases "u \<in> set (revealedList s)")
      case True
      then have old: "cellAt (fgrid s) (fst (updatePos conf u)) (snd (updatePos conf u)) = Inr (u_cell u)"
        by (rule floodInv_ucell[OF inv])
      have "updatePos conf u \<in> visited s" using True floodInv_visited[OF inv] by simp
      then have ne: "updatePos conf u \<noteq> (gx, gy)" using nv by auto
      have "updatePos conf u \<in> floodReach conf g sx sy"
        using \<open>updatePos conf u \<in> visited s\<close> floodInv_sub[OF inv] by blast
      then have "inBounds conf (fst (updatePos conf u)) (snd (updatePos conf u))"
        using floodReach_inBounds[of "fst (updatePos conf u)" "snd (updatePos conf u)"] by simp
      from set'[OF this] old ne show ?thesis
        by (auto simp: revealStep_def prod_eq_iff)
    next
      case False
      then have "u = mkUpdate conf gx gy (c\<lparr>revealed := True\<rparr>)"
        using u by (simp add: revealStep_def)
      then show ?thesis using up set'[OF ib] by (simp add: revealStep_def mkUpdate_def)
    qed
  qed
  show ?thesis unfolding floodInv_def using 1 2 3 4 5 6 by blast
qed

lemma expanded_mono: "expanded conf g V gx gy \<Longrightarrow> V \<subseteq> V' \<Longrightarrow> expanded conf g V' gx gy"
  unfolding expanded_def by blast

lemma floodPost_refl: "floodInv conf g sx sy s \<Longrightarrow> floodPost conf g sx sy s s"
  unfolding floodPost_def by simp

lemma floodPost_trans:
  assumes "floodPost conf g sx sy s s1" "floodPost conf g sx sy s1 s2"
  shows "floodPost conf g sx sy s s2"
proof -
  have sub: "visited s \<subseteq> visited s1" "visited s1 \<subseteq> visited s2"
    using assms unfolding floodPost_def by blast+
  have "expanded conf g (visited s2) gx gy" if "(gx, gy) \<in> visited s2 - visited s" for gx gy
  proof (cases "(gx, gy) \<in> visited s1")
    case True
    then have "expanded conf g (visited s1) gx gy"
      using that assms(1) unfolding floodPost_def by blast
    then show ?thesis using sub(2) by (rule expanded_mono)
  next
    case False
    then show ?thesis using that assms(2) unfolding floodPost_def by blast
  qed
  then show ?thesis using assms sub unfolding floodPost_def by blast
qed

lemma cellAt_base:
  assumes inv: "floodInv conf g sx sy s" and ib: "inBounds conf nx ny"
    and n: "cellAt (fgrid s) nx ny = Inr n"
  shows "\<exists>c. cellAt g nx ny = Inr c \<and> n = (if (nx, ny) \<in> visited s then c\<lparr>revealed := True\<rparr> else c)"
  using floodInv_cell[OF inv ib] n by (auto simp: markRevealed_def split: sum.splits)

lemma floodNeighbors_spec_aux:
  assumes IH: "\<And>nx ny s s'. floodInv conf g sx sy s \<Longrightarrow> (nx, ny) \<in> floodReach conf g sx sy \<Longrightarrow>
                 flood conf depth nx ny s = Inr s' \<Longrightarrow>
                 floodPost conf g sx sy s s' \<and> (nx, ny) \<in> visited s'"
    and r: "(gx, gy) \<in> floodReach conf g sx sy" and z: "zeroCell g gx gy"
  shows "floodInv conf g sx sy s \<Longrightarrow> set ds \<subseteq> set offsets \<Longrightarrow>
         floodNeighbors conf depth gx gy ds s = Inr s' \<Longrightarrow>
         floodPost conf g sx sy s s' \<and>
         (\<forall>(dx, dy) \<in> set ds. inBounds conf (gx + dx) (gy + dy) \<longrightarrow>
             floodable g (gx + dx) (gy + dy) \<longrightarrow> (gx + dx, gy + dy) \<in> visited s')"
proof (induction ds arbitrary: s)
  case Nil
  then show ?case by (simp add: floodPost_refl)
next
  case (Cons d ds)
  obtain dx dy where d: "d = (dx, dy)" by (cases d)
  have off: "(dx, dy) \<in> set offsets" "set ds \<subseteq> set offsets" using Cons.prems(2) d by auto
  show ?case
  proof (cases "inBounds conf (gx + dx) (gy + dy)")
    case False
    then have "floodNeighbors conf depth gx gy ds s = Inr s'"
      using Cons.prems(3) d by (simp add: Let_def)
    from Cons.IH[OF Cons.prems(1) off(2) this] False show ?thesis using d by auto
  next
    case ib: True
    have "\<exists>n. cellAt (fgrid s) (gx + dx) (gy + dy) = Inr n"
      by (rule cellAt_wf_ex[OF floodInv_wf[OF Cons.prems(1)] ib])
    then obtain n where n: "cellAt (fgrid s) (gx + dx) (gy + dy) = Inr n" by blast
    from cellAt_base[OF Cons.prems(1) ib n] obtain c where
      c: "cellAt g (gx + dx) (gy + dy) = Inr c"
         "n = (if (gx + dx, gy + dy) \<in> visited s then c\<lparr>revealed := True\<rparr> else c)" by blast
    show ?thesis
    proof (cases "\<not> revealed n \<and> \<not> flagged n \<and> \<not> hasMine n")
      case True
      then have nv: "(gx + dx, gy + dy) \<notin> visited s" using c(2) by auto
      then have "floodable g (gx + dx) (gy + dy)" using True c by (simp add: floodable_def)
      then have nr: "(gx + dx, gy + dy) \<in> floodReach conf g sx sy"
        using floodReach.step[OF r z off(1) ib] by simp
      from Cons.prems(3) d ib n True obtain s1 where
        s1: "flood conf depth (gx + dx) (gy + dy) s = Inr s1"
            "floodNeighbors conf depth gx gy ds s1 = Inr s'"
        by (auto simp: Let_def split: sum.splits)
      from IH[OF Cons.prems(1) nr s1(1)] have
        p1: "floodPost conf g sx sy s s1" and v1: "(gx + dx, gy + dy) \<in> visited s1" by blast+
      have inv1: "floodInv conf g sx sy s1" using p1 by (simp add: floodPost_def)
      from Cons.IH[OF inv1 off(2) s1(2)] have
        p2: "floodPost conf g sx sy s1 s'" and
        rest: "\<forall>(dx, dy) \<in> set ds. inBounds conf (gx + dx) (gy + dy) \<longrightarrow>
             floodable g (gx + dx) (gy + dy) \<longrightarrow> (gx + dx, gy + dy) \<in> visited s'" by blast+
      have "(gx + dx, gy + dy) \<in> visited s'" using v1 p2 unfolding floodPost_def by blast
      then show ?thesis using floodPost_trans[OF p1 p2] rest d by auto
    next
      case False
      then have run: "floodNeighbors conf depth gx gy ds s = Inr s'"
        using Cons.prems(3) d ib n by (auto simp: Let_def)
      from Cons.IH[OF Cons.prems(1) off(2) run] have
        p: "floodPost conf g sx sy s s'" and
        rest: "\<forall>(dx, dy) \<in> set ds. inBounds conf (gx + dx) (gy + dy) \<longrightarrow>
             floodable g (gx + dx) (gy + dy) \<longrightarrow> (gx + dx, gy + dy) \<in> visited s'" by blast+
      have "(gx + dx, gy + dy) \<in> visited s'" if "floodable g (gx + dx) (gy + dy)"
      proof -
        have "(gx + dx, gy + dy) \<in> visited s"
          using that False c by (auto simp: floodable_def split: if_splits)
        then show ?thesis using p unfolding floodPost_def by blast
      qed
      then show ?thesis using p rest d by auto
    qed
  qed
qed

lemma flood_spec:
  assumes wf: "wf_grid conf g" and S: "0 < CHUNK_SIZE conf"
  shows "floodInv conf g sx sy s \<Longrightarrow> (gx, gy) \<in> floodReach conf g sx sy \<Longrightarrow>
         flood conf depth gx gy s = Inr s' \<Longrightarrow>
         floodPost conf g sx sy s s' \<and> (gx, gy) \<in> visited s'"
proof (induction depth arbitrary: gx gy s s')
  case 0
  then show ?case by simp
next
  case (Suc depth)
  show ?case
  proof (cases "(gx, gy) \<in> visited s")
    case True
    then have "s' = s" using Suc.prems(3) by simp
    then show ?thesis using True Suc.prems(1) by (simp add: floodPost_refl)
  next
    case nv: False
    have ib: "inBounds conf gx gy" using Suc.prems(2) by (rule floodReach_inBounds)
    have fl: "floodable g gx gy" using Suc.prems(2) by (rule floodReach_floodable)
    have "\<exists>c. cellAt (fgrid s) gx gy = Inr c"
      by (rule cellAt_wf_ex[OF floodInv_wf[OF Suc.prems(1)] ib])
    then obtain c where c: "cellAt (fgrid s) gx gy = Inr c" by blast
    from cellAt_base[OF Suc.prems(1) ib c] nv have cg: "cellAt g gx gy = Inr c" by auto
    have cs: "\<not> revealed c" "\<not> flagged c" "\<not> hasMine c"
      using fl cg by (simp_all add: floodable_def)
    let ?s2 = "revealStep conf gx gy c s"
    have inv2: "floodInv conf g sx sy ?s2"
      by (rule floodInv_revealStep[OF Suc.prems(1) wf S Suc.prems(2) nv c])
    have v2: "visited ?s2 = insert (gx, gy) (visited s)" by (simp add: revealStep_def)
    have eq: "flood conf (Suc depth) gx gy s =
           (if adjacentMines c = 0 \<and> \<not> hasMine c
            then floodNeighbors conf depth gx gy offsets ?s2 else Inr ?s2)"
      by (rule flood_new[OF nv c cs(1) cs(2)])
    show ?thesis
    proof (cases "adjacentMines c = 0 \<and> \<not> hasMine c")
      case True
      then have z: "zeroCell g gx gy" using cg by (simp add: zeroCell_def)
      have run: "floodNeighbors conf depth gx gy offsets ?s2 = Inr s'"
        using Suc.prems(3)[unfolded eq] True by simp
      have "floodPost conf g sx sy ?s2 s' \<and>
         (\<forall>(dx, dy) \<in> set offsets. inBounds conf (gx + dx) (gy + dy) \<longrightarrow>
             floodable g (gx + dx) (gy + dy) \<longrightarrow> (gx + dx, gy + dy) \<in> visited s')"
        by (rule floodNeighbors_spec_aux[OF Suc.IH Suc.prems(2) z inv2 subset_refl run])
      then have p: "floodPost conf g sx sy ?s2 s'" and
        e: "expanded conf g (visited s') gx gy" by (auto simp: expanded_def)
      have sub: "visited ?s2 \<subseteq> visited s'" using p by (simp add: floodPost_def)
      have "expanded conf g (visited s') x y" if "(x, y) \<in> visited s' - visited s" for x y
      proof (cases "(x, y) = (gx, gy)")
        case True
        then show ?thesis using e by simp
      next
        case False
        then have "(x, y) \<in> visited s' - visited ?s2" using that v2 by auto
        then show ?thesis using p unfolding floodPost_def by blast
      qed
      then have "floodPost conf g sx sy s s'"
        using p sub v2 unfolding floodPost_def by blast
      then show ?thesis using sub v2 by auto
    next
      case False
      then have s': "s' = ?s2" using Suc.prems(3)[unfolded eq] cs by (auto split: if_splits)
      have "\<not> zeroCell g gx gy" using False cg by (simp add: zeroCell_def)
      then have "expanded conf g (visited ?s2) gx gy" by (simp add: expanded_def)
      then have "floodPost conf g sx sy s ?s2"
        using inv2 v2 unfolding floodPost_def by auto
      then show ?thesis using s' v2 by simp
    qed
  qed
qed

lemma floodNeighbors_spec:
  assumes wf: "wf_grid conf g" and S: "0 < CHUNK_SIZE conf"
    and r: "(gx, gy) \<in> floodReach conf g sx sy" and z: "zeroCell g gx gy"
    and inv: "floodInv conf g sx sy s" and ds: "set ds \<subseteq> set offsets"
    and run: "floodNeighbors conf depth gx gy ds s = Inr s'"
  shows "floodPost conf g sx sy s s'"
proof -
  have IH: "\<And>nx ny s s'. floodInv conf g sx sy s \<Longrightarrow> (nx, ny) \<in> floodReach conf g sx sy \<Longrightarrow>
                 flood conf depth nx ny s = Inr s' \<Longrightarrow>
                 floodPost conf g sx sy s s' \<and> (nx, ny) \<in> visited s'"
    by (rule flood_spec[OF wf S])
  from floodNeighbors_spec_aux[OF IH r z inv ds run] show ?thesis by blast
qed

lemma cells_eq: "cells conf = {0..<GRID_WIDTH conf} \<times> {0..<GRID_HEIGHT conf}"
  by (auto simp: cells_def inBounds_def)

lemma finite_cells: "finite (cells conf)"
  by (simp add: cells_eq)

lemma card_cells: "card (cells conf) = nat (GRID_WIDTH conf) * nat (GRID_HEIGHT conf)"
  by (simp add: cells_eq)

lemma finite_floodReach: "finite (floodReach conf g sx sy)"
proof (rule finite_subset[OF _ finite_cells])
  show "floodReach conf g sx sy \<subseteq> cells conf"
    using floodReach_inBounds by (auto simp: cells_def)
qed

lemma card_Diff_insert_less:
  assumes "finite R" "p \<in> R" "p \<notin> V"
  shows "card (R - insert p V) < card (R - V)"
proof -
  have "R - insert p V \<subset> R - V" using assms(2,3) by auto
  then show ?thesis by (rule psubset_card_mono[OF finite_Diff[OF assms(1)]])
qed

lemma card_Diff_mono:
  assumes "finite R" "V \<subseteq> V'"
  shows "card (R - V') \<le> card (R - V)"
  by (rule card_mono[OF finite_Diff[OF assms(1)]]) (use assms(2) in auto)

text \<open>
  The flood returns when the call stack holds one nested call for every cell that is still
  to be visited: a neighbour is entered only when it is not revealed, hence not visited.
\<close>

lemma floodNeighbors_total_aux:
  assumes wf: "wf_grid conf g" and S: "0 < CHUNK_SIZE conf"
    and IH: "\<And>nx ny s. floodInv conf g sx sy s \<Longrightarrow> (nx, ny) \<in> floodReach conf g sx sy \<Longrightarrow>
                 (nx, ny) \<notin> visited s \<Longrightarrow>
                 card (floodReach conf g sx sy - visited s) \<le> depth \<Longrightarrow>
                 \<exists>s'. flood conf depth nx ny s = Inr s'"
    and r: "(gx, gy) \<in> floodReach conf g sx sy" and z: "zeroCell g gx gy"
  shows "floodInv conf g sx sy s \<Longrightarrow> set ds \<subseteq> set offsets \<Longrightarrow>
         card (floodReach conf g sx sy - visited s) \<le> depth \<Longrightarrow>
         \<exists>s'. floodNeighbors conf depth gx gy ds s = Inr s'"
proof (induction ds arbitrary: s)
  case Nil
  then show ?case by simp
next
  case (Cons d ds)
  obtain dx dy where d: "d = (dx, dy)" by (cases d)
  have off: "(dx, dy) \<in> set offsets" "set ds \<subseteq> set offsets" using Cons.prems(2) d by auto
  have skip: "\<exists>s'. floodNeighbors conf depth gx gy ds s = Inr s'"
    by (rule Cons.IH[OF Cons.prems(1) off(2) Cons.prems(3)])
  show ?case
  proof (cases "inBounds conf (gx + dx) (gy + dy)")
    case False
    then show ?thesis using skip d by (simp add: Let_def)
  next
    case ib: True
    have "\<exists>n. cellAt (fgrid s) (gx + dx) (gy + dy) = Inr n"
      by (rule cellAt_wf_ex[OF floodInv_wf[OF Cons.prems(1)] ib])
    then obtain n where n: "cellAt (fgrid s) (gx + dx) (gy + dy) = Inr n" by blast
    from cellAt_base[OF Cons.prems(1) ib n] obtain c where
      c: "cellAt g (gx + dx) (gy + dy) = Inr c"
         "n = (if (gx + dx, gy + dy) \<in> visited s then c\<lparr>revealed := True\<rparr> else c)" by blast
    show ?thesis
    proof (cases "\<not> revealed n \<and> \<not> flagged n \<and> \<not> hasMine n")
      case True
      then have nv: "(gx + dx, gy + dy) \<notin> visited s" using c(2) by auto
      then have "floodable g (gx + dx) (gy + dy)" using True c by (simp add: floodable_def)
      then have nr: "(gx + dx, gy + dy) \<in> floodReach conf g sx sy"
        using floodReach.step[OF r z off(1) ib] by simp
      from IH[OF Cons.prems(1) nr nv Cons.prems(3)] obtain s1 where
        s1: "flood conf depth (gx + dx) (gy + dy) s = Inr s1" by blast
      from flood_spec[OF wf S Cons.prems(1) nr s1] have p1: "floodPost conf g sx sy s s1" by blast
      then have inv1: "floodInv conf g sx sy s1" and sub: "visited s \<subseteq> visited s1"
        by (simp_all add: floodPost_def)
      have "card (floodReach conf g sx sy - visited s1) \<le> depth"
        using card_Diff_mono[OF finite_floodReach sub, of conf g sx sy] Cons.prems(3) by simp
      from Cons.IH[OF inv1 off(2) this] obtain s' where
        "floodNeighbors conf depth gx gy ds s1 = Inr s'" by blast
      then show ?thesis using d ib n True s1 by (simp add: Let_def)
    next
      case False
      then show ?thesis using skip d ib n by (auto simp: Let_def)
    qed
  qed
qed

lemma flood_total:
  assumes wf: "wf_grid conf g" and S: "0 < CHUNK_SIZE conf"
  shows "floodInv conf g sx sy s \<Longrightarrow> (gx, gy) \<in> floodReach conf g sx sy \<Longrightarrow>
         (gx, gy) \<notin> visited s \<Longrightarrow> card (floodReach conf g sx sy - visited s) \<le> depth \<Longrightarrow>
         \<exists>s'. flood conf depth gx gy s = Inr s'"
proof (induction depth arbitrary: gx gy s)
  case 0
  have "(gx, gy) \<in> floodReach conf g sx sy - visited s" using "0.prems"(2,3) by simp
  moreover have "floodReach conf g sx sy - visited s = {}"
    using "0.prems"(4) finite_floodReach[of conf g sx sy] by simp
  ultimately show ?case by simp
next
  case (Suc depth)
  have nv: "(gx, gy) \<notin> visited s" by (rule Suc.prems(3))
  have ib: "inBounds conf gx gy" using Suc.prems(2) by (rule floodReach_inBounds)
  have fl: "floodable g gx gy" using Suc.prems(2) by (rule floodReach_floodable)
  have "\<exists>c. cellAt (fgrid s) gx gy = Inr c"
    by (rule cellAt_wf_ex[OF floodInv_wf[OF Suc.prems(1)] ib])
  then obtain c where c: "cellAt (fgrid s) gx gy = Inr c" by blast
  from cellAt_base[OF Suc.prems(1) ib c] nv have cg: "cellAt g gx gy = Inr c" by auto
  have cs: "\<not> revealed c" "\<not> flagged c" "\<not> hasMine c"
    using fl cg by (simp_all add: floodable_def)
  let ?s2 = "revealStep conf gx gy c s"
  have inv2: "floodInv conf g sx sy ?s2"
    by (rule floodInv_revealStep[OF Suc.prems(1) wf S Suc.prems(2) nv c])
  have v2: "visited ?s2 = insert (gx, gy) (visited s)" by (simp add: revealStep_def)
  have eq: "flood conf (Suc depth) gx gy s =
         (if adjacentMines c = 0 \<and> \<not> hasMine c
          then floodNeighbors conf depth gx gy offsets ?s2 else Inr ?s2)"
    by (rule flood_new[OF nv c cs(1) cs(2)])
  show ?case
  proof (cases "adjacentMines c = 0 \<and> \<not> hasMine c")
    case True
    then have z: "zeroCell g gx gy" using cg by (simp add: zeroCell_def)
    from card_Diff_insert_less[OF finite_floodReach Suc.prems(2) nv]
    have "card (floodReach conf g sx sy - visited ?s2) \<le> depth"
      using Suc.prems(4) v2 by simp
    from floodNeighbors_total_aux[OF wf S Suc.IH Suc.prems(2) z inv2 subset_refl this]
    show ?thesis unfolding eq using True by simp
  next
    case False
    then show ?thesis unfolding eq using cs by auto
  qed
qed

text \<open>
  The only error of a flood is the exhausted call stack: in a grid of the configured size
  every cell it reads exists.
\<close>

lemma floodNeighbors_error_aux:
  assumes wf: "wf_grid conf g" and S: "0 < CHUNK_SIZE conf"
    and IH: "\<And>nx ny s. floodInv conf g sx sy s \<Longrightarrow> (nx, ny) \<in> floodReach conf g sx sy \<Longrightarrow>
                 flood conf depth nx ny s \<noteq> Inl TypeError"
    and r: "(gx, gy) \<in> floodReach conf g sx sy" and z: "zeroCell g gx gy"
  shows "floodInv conf g sx sy s \<Longrightarrow> set ds \<subseteq> set offsets \<Longrightarrow>
         floodNeighbors conf depth gx gy ds s \<noteq> Inl TypeError"
proof (induction ds arbitrary: s)
  case Nil
  then show ?case by simp
next
  case (Cons d ds)
  obtain dx dy where d: "d = (dx, dy)" by (cases d)
  have off: "(dx, dy) \<in> set offsets" "set ds \<subseteq> set offsets" using Cons.prems(2) d by auto
  have skip: "floodNeighbors conf depth gx gy ds s \<noteq> Inl TypeError"
    by (rule Cons.IH[OF Cons.prems(1) off(2)])
  show ?case
  proof (cases "inBounds conf (gx + dx) (gy + dy)")
    case False
    then show ?thesis using skip d by (simp add: Let_def)
  next
    case ib: True
    have "\<exists>n. cellAt (fgrid s) (gx + dx) (gy + dy) = Inr n"
      by (rule cellAt_wf_ex[OF floodInv_wf[OF Cons.prems(1)] ib])
    then obtain n where n: "cellAt (fgrid s) (gx + dx) (gy + dy) = Inr n" by blast
    from cellAt_base[OF Cons.prems(1) ib n] obtain c where
      c: "cellAt g (gx + dx) (gy + dy) = Inr c"
         "n = (if (gx + dx, gy + dy) \<in> visited s then c\<lparr>revealed := True\<rparr> else c)" by blast
    show ?thesis
    proof (cases "\<not> revealed n \<and> \<not> flagged n \<and> \<not> hasMine n")
      case True
      then have nv: "(gx + dx, gy + dy) \<notin> visited s" using c(2) by auto
      then have "floodable g (gx + dx) (gy + dy)" using True c by (simp add: floodable_def)
      then have nr: "(gx + dx, gy + dy) \<in> floodReach conf g sx sy"
        using floodReach.step[OF r z off(1) ib] by simp
      show ?thesis
      proof (cases "flood conf depth (gx + dx) (gy + dy) s")
        case (Inl e)
        then have "e \<noteq> TypeError" using IH[OF Cons.prems(1) nr] by auto
        then show ?thesis using d ib n True Inl by (simp add: Let_def)
      next
        case (Inr s1)
        from flood_spec[OF wf S Cons.prems(1) nr Inr] have "floodPost conf g sx sy s s1" by blast
        then have inv1: "floodInv conf g sx sy s1" by (simp add: floodPost_def)
        from Cons.IH[OF inv1 off(2)] show ?thesis using d ib n True Inr by (simp add: Let_def)
      qed
    next
      case False
      then show ?thesis using skip d ib n by (auto simp: Let_def)
    qed
  qed
qed

lemma flood_error:
  assumes wf: "wf_grid conf g" and S: "0 < CHUNK_SIZE conf"
  shows "floodInv conf g sx sy s \<Longrightarrow> (gx, gy) \<in> floodReach conf g sx sy \<Longrightarrow>
         flood conf depth gx gy s \<noteq> Inl TypeError"
proof (induction depth arbitrary: gx gy s)
  case 0
  then show ?case by simp
next
  case (Suc depth)
  show ?case
  proof (cases "(gx, gy) \<in> visited s")
    case True
    then show ?thesis by simp
  next
    case nv: False
    have ib: "inBounds conf gx gy" using Suc.prems(2) by (rule floodReach_inBounds)
    have fl: "floodable g gx gy" using Suc.prems(2) by (rule floodReach_floodable)
    have "\<exists>c. cellAt (fgrid s) gx gy = Inr c"
      by (rule cellAt_wf_ex[OF floodInv_wf[OF Suc.prems(1)] ib])
    then obtain c where c: "cellAt (fgrid s) gx gy = Inr c" by blast
    from cellAt_base[OF Suc.prems(1) ib c] nv have cg: "cellAt g gx gy = Inr c" by auto
    have cs: "\<not> revealed c" "\<not> flagged c" "\<not> hasMine c"
      using fl cg by (simp_all add: floodable_def)
    let ?s2 = "revealStep conf gx gy c s"
    have inv2: "floodInv conf g sx sy ?s2"
      by (rule floodInv_revealStep[OF Suc.prems(1) wf S Suc.prems(2) nv c])
    have eq: "flood conf (Suc depth) gx gy s =
           (if adjacentMines c = 0 \<and> \<not> hasMine c
            then floodNeighbors conf depth gx gy offsets ?s2 else Inr ?s2)"
      by (rule flood_new[OF nv c cs(1) cs(2)])
    show ?thesis
    proof (cases "adjacentMines c = 0 \<and> \<not> hasMine c")
      case True
      then have z: "zeroCell g gx gy" using cg by (simp add: zeroCell_def)
      from floodNeighbors_error_aux[OF wf S Suc.IH Suc.prems(2) z inv2 subset_refl]
      show ?thesis unfolding eq using True by simp
    next
      case False
      then show ?thesis unfolding eq using cs by auto
    qed
  qed
qed

lemma markRevealed_empty: "markRevealed {} g gx gy = cellAt g gx gy"
  by (simp add: markRevealed_def split: sum.splits)

lemma floodInv_init:
  assumes "wf_grid conf g"
  shows "floodInv conf g sx sy \<lparr>visited = {}, fgrid = g, revealedList = []\<rparr>"
  using assms by (simp add: floodInv_def markRevealed_empty)

text \<open>
  A flood that returns has visited exactly the cells that the rule reaches from its start,
  whatever the depth of the call stack.
\<close>

lemma flood_top_spec:
  assumes wf: "wf_grid conf g" and S: "0 < CHUNK_SIZE conf"
    and ib: "inBounds conf sx sy" and fl: "floodable g sx sy"
    and run: "flood conf depth sx sy \<lparr>visited = {}, fgrid = g, revealedList = []\<rparr> = Inr s'"
  shows "floodInv conf g sx sy s' \<and> visited s' = floodReach conf g sx sy"
proof -
  let ?s0 = "\<lparr>visited = {}, fgrid = g, revealedList = []\<rparr>"
  have inv0: "floodInv conf g sx sy ?s0" by (rule floodInv_init[OF wf])
  have r0: "(sx, sy) \<in> floodReach conf g sx sy" by (rule floodReach.start[OF ib fl])
  from flood_spec[OF wf S inv0 r0 run] have p: "floodPost conf g sx sy ?s0 s'"
    and st: "(sx, sy) \<in> visited s'" by blast+
  have inv: "floodInv conf g sx sy s'" using p by (simp add: floodPost_def)
  have ex: "\<And>gx gy. (gx, gy) \<in> visited s' \<Longrightarrow> expanded conf g (visited s') gx gy"
    using p by (auto simp: floodPost_def)
  have "(gx, gy) \<in> visited s'" if "(gx, gy) \<in> floodReach conf g sx sy" for gx gy
    using that
  proof (induction rule: floodReach.induct)
    case start
    show ?case by (rule st)
  next
    case (step gx gy dx dy)
    from ex[OF step.IH] step.hyps show ?case unfolding expanded_def by blast
  qed
  then have "visited s' = floodReach conf g sx sy" using floodInv_sub[OF inv] by auto
  then show ?thesis using inv by blast
qed

lemma flood_top_error:
  assumes wf: "wf_grid conf g" and S: "0 < CHUNK_SIZE conf"
    and ib: "inBounds conf sx sy" and fl: "floodable g sx sy"
  shows "flood conf depth sx sy \<lparr>visited = {}, fgrid = g, revealedList = []\<rparr> \<noteq> Inl TypeError"
  by (rule flood_error[OF wf S floodInv_init[OF wf] floodReach.start[OF ib fl]])

lemma flood_top_returns:
  assumes wf: "wf_grid conf g" and S: "0 < CHUNK_SIZE conf"
    and ib: "inBounds conf sx sy" and fl: "floodable g sx sy"
    and d: "card (floodReach conf g sx sy) \<le> depth"
  shows "\<exists>s'. flood conf depth sx sy \<lparr>visited = {}, fgrid = g, revealedList = []\<rparr> = Inr s'"
proof -
  let ?s0 = "\<lparr>visited = {}, fgrid = g, revealedList = []\<rparr>"
  have inv0: "floodInv conf g sx sy ?s0" by (rule floodInv_init[OF wf])
  have r0: "(sx, sy) \<in> floodReach conf g sx sy" by (rule floodReach.start[OF ib fl])
  have "card (floodReach conf g sx sy - visited ?s0) \<le> depth" using d by simp
  from flood_total[OF wf S inv0 r0 _ this] show ?thesis by simp
qed

subsection \<open>Initialization without mines\<close>

lemma wf_emptyGrid: "wf_grid conf (emptyGrid conf)"
  by (simp add: wf_grid_def emptyGrid_def)

lemma cellAt_emptyGrid:
  assumes "inBounds conf gx gy"
  shows "cellAt (emptyGrid conf) gx gy = Inr (newCell gx gy)"
proof -
  have "nat gy < length [0..GRID_HEIGHT conf - 1]" "nat gx < length [0..GRID_WIDTH conf - 1]"
    using assms by (auto simp: inBounds_def)
  then have "emptyGrid conf ! nat gy ! nat gx = newCell (int (nat gx)) (int (nat gy))"
    using assms by (simp add: emptyGrid_def inBounds_def)
  then show ?thesis using cellAt_wf[OF wf_emptyGrid assms] assms by (simp add: inBounds_def)
qed

lemma setCell_same:
  assumes "wf_grid conf g" "inBounds conf gx gy" "cellAt g gx gy = Inr c"
  shows "setCell g gx gy c = g"
proof -
  have "g ! nat gy ! nat gx = c" using cellAt_wf[OF assms(1,2)] assms(3) by simp
  then have "(g ! nat gy)[nat gx := c] = g ! nat gy" by (metis list_update_id)
  then show ?thesis by (simp add: setCell_def)
qed

lemma countLoop_no_mines:
  assumes "wf_grid conf g" "\<And>nx ny c. inBounds conf nx ny \<Longrightarrow> cellAt g nx ny = Inr c \<Longrightarrow> \<not> hasMine c"
  shows "countLoop conf g gx gy ds k = Inr k"
proof (induction ds)
  case Nil
  then show ?case by simp
next
  case (Cons d ds)
  obtain dx dy where d: "d = (dx, dy)" by (cases d)
  show ?case
  proof (cases "inBounds conf (gx + dx) (gy + dy)")
    case True
    from cellAt_wf_ex[OF assms(1) True] obtain c where c: "cellAt g (gx + dx) (gy + dy) = Inr c" by blast
    then show ?thesis using True assms(2)[OF True c] Cons.IH d by (simp add: Let_def)
  next
    case False
    then show ?thesis using Cons.IH d by (simp add: Let_def)
  qed
qed

lemma calcLoop_emptyGrid:
  assumes "\<forall>(gx, gy) \<in> set ps. inBounds conf gx gy"
  shows "calcLoop conf ps (emptyGrid conf) = Inr (emptyGrid conf)"
  using assms
proof (induction ps)
  case Nil
  then show ?case by simp
next
  case (Cons p ps)
  obtain gx gy where p: "p = (gx, gy)" by (cases p)
  have ib: "inBounds conf gx gy" using Cons.prems p by simp
  have c: "cellAt (emptyGrid conf) gx gy = Inr (newCell gx gy)" by (rule cellAt_emptyGrid[OF ib])
  have k: "countAdjacentMinesInCompleteGrid conf (emptyGrid conf) gx gy = Inr 0"
    unfolding countAdjacentMinesInCompleteGrid_def
  proof (rule countLoop_no_mines[OF wf_emptyGrid])
    fix nx ny c assume "inBounds conf nx ny" "cellAt (emptyGrid conf) nx ny = Inr c"
    then show "\<not> hasMine c" using cellAt_emptyGrid[of conf nx ny] by (auto simp: newCell_def)
  qed
  have "(newCell gx gy)\<lparr>adjacentMines := 0\<rparr> = newCell gx gy" by (simp add: newCell_def)
  then have "setCell (emptyGrid conf) gx gy ((newCell gx gy)\<lparr>adjacentMines := 0\<rparr>) = emptyGrid conf"
    using setCell_same[OF wf_emptyGrid ib c] by simp
  then show ?case using Cons p c k by simp
qed

lemma allPositions_inBounds: "(gx, gy) \<in> set (allPositions conf) \<Longrightarrow> inBounds conf gx gy"
  by (auto simp: allPositions_def inBounds_def)

lemma placeMinesLoop_done:
  "\<not> js_less (Num (of_int placed)) n \<Longrightarrow> placeMinesLoop g placed n draws = Some (Inr g)"
  by (cases draws) auto

lemma initialize_emptyGrid:
  assumes "\<not> js_less (Num 0) (mineCount conf)"
  shows "initializeCompleteGrid conf draws = Some (Inr (emptyGrid conf))"
proof -
  have "placeMinesInCompleteGrid conf draws (emptyGrid conf) = Some (Inr (emptyGrid conf))"
    using assms by (simp add: placeMinesInCompleteGrid_def placeMinesLoop_done)
  moreover have "calculateAdjacentCountsForCompleteGrid conf (emptyGrid conf) = Inr (emptyGrid conf)"
    unfolding calculateAdjacentCountsForCompleteGrid_def
    by (rule calcLoop_emptyGrid) (auto dest: allPositions_inBounds)
  ultimately show ?thesis by (simp add: initializeCompleteGrid_def)
qed

lemma Math_round_not_positive:
  assumes "\<not> js_less (Num 0) x"
  shows "\<not> js_less (Num 0) (Math_round x)"
proof (cases x)
  case (Num q)
  then have "q \<le> 0" using assms by (simp add: js_less_def)
  then have "q + 1 / 2 < 1" by simp
  then have "\<lfloor>q + 1 / 2\<rfloor> \<le> 0" by (simp add: floor_le_iff)
  then show ?thesis using Num by (simp add: Math_round_def js_less_def)
qed (use assms in \<open>simp_all add: Math_round_def\<close>)

lemma js_times_zero:
  "\<not> js_less (Num 0) (js_times (Num 0) y)" "\<not> js_less (Num 0) (js_times x (Num 0))"
proof -
  show "\<not> js_less (Num 0) (js_times (Num 0) y)"
    by (cases y) (simp_all add: js_times_def js_less_def js_sign_def fl_def)
  show "\<not> js_less (Num 0) (js_times x (Num 0))"
    by (cases x) (simp_all add: js_times_def js_less_def js_sign_def fl_def)
qed

lemma js_times_not_positive:
  assumes x: "x = PosInfinity \<or> (\<exists>r. x = Num r \<and> 0 \<le> r)" and y: "\<not> js_less (Num 0) y"
  shows "\<not> js_less (Num 0) (js_times x y)"
proof (cases y)
  case (Num q)
  then have q: "q \<le> 0" using y by (simp add: js_less_def)
  from x show ?thesis
  proof
    assume "x = PosInfinity"
    then show ?thesis using Num q
      by (cases "q = 0") (simp_all add: js_times_def js_less_def js_sign_def Let_def)
  next
    assume "\<exists>r. x = Num r \<and> 0 \<le> r"
    then obtain r where r: "x = Num r" "0 \<le> r" by blast
    have "r * q \<le> 0" using r(2) q by (simp add: mult_le_0_iff)
    from fl_nonpos[OF this] show ?thesis using r(1) Num by (auto simp: js_times_def js_less_def)
  qed
next
  case PosInfinity
  then show ?thesis using y by (simp add: js_less_def)
next
  case NegInfinity
  from x show ?thesis
  proof
    assume "x = PosInfinity"
    then show ?thesis using NegInfinity by (simp add: js_times_def js_less_def js_sign_def Let_def)
  next
    assume "\<exists>r. x = Num r \<and> 0 \<le> r"
    then obtain r where r: "x = Num r" "0 \<le> r" by blast
    then show ?thesis using NegInfinity
      by (cases "r = 0") (simp_all add: js_times_def js_less_def js_sign_def Let_def)
  qed
next
  case NaN
  then show ?thesis by (cases x) (simp_all add: js_times_def js_less_def)
qed

text \<open>
  The number of mines that \<^verbatim>\<open>placeMinesInCompleteGrid\<close> computes is not positive when the
  width or the height is zero, whatever the percentage, and when the percentage is not
  positive (negative, zero or \<^verbatim>\<open>NaN\<close>) and the product of the dimensions is not negative.
\<close>

lemma mineCount_not_positive:
  assumes "GRID_WIDTH conf = 0 \<or> GRID_HEIGHT conf = 0 \<or>
           (0 \<le> GRID_WIDTH conf * GRID_HEIGHT conf \<and> \<not> js_less (Num 0) (MINE_PERCENTAGE conf))"
  shows "\<not> js_less (Num 0) (mineCount conf)"
proof -
  let ?cells = "js_times (Num (of_int (GRID_WIDTH conf))) (Num (of_int (GRID_HEIGHT conf)))"
  have "\<not> js_less (Num 0) (js_times ?cells (MINE_PERCENTAGE conf))"
  proof (cases "GRID_WIDTH conf = 0 \<or> GRID_HEIGHT conf = 0")
    case True
    then have "?cells = Num 0" by (auto simp: js_times_def fl_def)
    then show ?thesis by (simp add: js_times_zero)
  next
    case False
    then have h: "0 \<le> GRID_WIDTH conf * GRID_HEIGHT conf" "\<not> js_less (Num 0) (MINE_PERCENTAGE conf)"
      using assms by simp_all
    have "0 \<le> rat_of_int (GRID_WIDTH conf) * rat_of_int (GRID_HEIGHT conf)"
      using h(1) by (metis of_int_0_le_iff of_int_mult)
    from fl_nonneg[OF this] have "?cells = PosInfinity \<or> (\<exists>r. ?cells = Num r \<and> 0 \<le> r)"
      by (simp add: js_times_def)
    then show ?thesis using h(2) by (rule js_times_not_positive)
  qed
  then show ?thesis unfolding mineCount_def by (rule Math_round_not_positive)
qed

text \<open>
  Claim C5, as the code has it. \<^verbatim>\<open>initializeCompleteGrid\<close> validates neither the dimensions
  nor the mine percentage and has no error \<^verbatim>\<open>InvalidDimensions\<close> or
  \<^verbatim>\<open>InvalidMinePercentage\<close>: whenever the number of mines it computes,
  \<^verbatim>\<open>Math.round(GRID_WIDTH * GRID_HEIGHT * MINE_PERCENTAGE)\<close> in the arithmetic of doubles, is
  not greater than zero, it returns for every sequence of draws, with the grid of default
  cells.
\<close>

theorem initialize_no_validation:
  assumes "\<not> js_less (Num 0) (mineCount conf)"
  shows "initializeCompleteGrid conf draws = Some (Inr (emptyGrid conf))"
proof -
  have "placeMinesLoop (emptyGrid conf) 0 (mineCount conf) draws = Some (Inr (emptyGrid conf))"
    using assms by (simp add: placeMinesLoop_done)
  then have "placeMinesInCompleteGrid conf draws (emptyGrid conf) = Some (Inr (emptyGrid conf))"
    by (simp add: placeMinesInCompleteGrid_def)
  moreover have "calculateAdjacentCountsForCompleteGrid conf (emptyGrid conf) = Inr (emptyGrid conf)"
    unfolding calculateAdjacentCountsForCompleteGrid_def
    by (rule calcLoop_emptyGrid) (auto dest: allPositions_inBounds)
  ultimately show ?thesis by (simp add: initializeCompleteGrid_def)
qed

text \<open>
  Three cells and a percentage of \<^verbatim>\<open>0.1\<close>: the product \<^verbatim>\<open>0.30000000000000004\<close> rounds to
  zero and no mine is placed.
\<close>

theorem initialize_no_validation_witness:
  "\<not> js_less (Num 0) (mineCount \<lparr>CHUNK_SIZE = 100, GRID_WIDTH = 3, GRID_HEIGHT = 1, MINE_PERCENTAGE = fl (1 / 10)\<rparr>) \<and>
   initializeCompleteGrid
     \<lparr>CHUNK_SIZE = 100, GRID_WIDTH = 3, GRID_HEIGHT = 1, MINE_PERCENTAGE = fl (1 / 10)\<rparr> [(0, 0)]
   = Some (Inr [[newCell 0 0, newCell 1 0, newCell 2 0]])"
proof -
  let ?c = "\<lparr>CHUNK_SIZE = 100, GRID_WIDTH = 3, GRID_HEIGHT = 1, MINE_PERCENTAGE = fl (1 / 10)\<rparr>"
  have h: "\<not> js_less (Num 0) (mineCount ?c)" by code_simp
  have e: "emptyGrid ?c = [[newCell 0 0, newCell 1 0, newCell 2 0]]" by code_simp
  show ?thesis using initialize_no_validation[OF h, of "[(0, 0)]"] h e by simp
qed

text \<open>
  Claim C5 as stated fails: with a width of zero and a mine percentage of \<^verbatim>\<open>1.5\<close> the
  initialization returns a grid (three rows without cells) and no error.
\<close>

theorem initialize_invalid_input_succeeds:
  "initializeCompleteGrid
     \<lparr>CHUNK_SIZE = 100, GRID_WIDTH = 0, GRID_HEIGHT = 3, MINE_PERCENTAGE = fl (3 / 2)\<rparr> []
   = Some (Inr [[], [], []])"
  by code_simp

subsection \<open>Chunk requests\<close>

text \<open>
  Claim C6 on server.js: a chunk that was requested before a reveal is answered from the
  map \<^verbatim>\<open>gridChunks\<close> afterwards. In the small world the second answer for chunk \<open>(1, 1)\<close> still
  shows the cell \<open>(2, 2)\<close> unrevealed, the grid has it revealed, and the request of part_001
  shows it revealed.
\<close>

theorem cached_chunk_is_stale:
  "staleChunkScenario =
     Some (Obj \<lparr>cell_x = 2, cell_y = 2, revealed = False, hasMine = False, adjacentMines = 1, flagged = False\<rparr>,
           Inr \<lparr>cell_x = 2, cell_y = 2, revealed = True, hasMine = False, adjacentMines = 1, flagged = False\<rparr>,
           Obj \<lparr>cell_x = 2, cell_y = 2, revealed = True, hasMine = False, adjacentMines = 1, flagged = False\<rparr>)"
  by code_simp

text \<open>
  Claim C7 on server.js: the extraction tests the upper bounds only. With the constants of
  constants.js and any grid, the chunk \<open>(0, -1)\<close> reads a row before the first and raises
  \<^verbatim>\<open>TypeError\<close>; in the small world the chunk \<open>(-1, 0)\<close> is made of objects without
  properties, not of default cells.
\<close>

theorem extract_negative_chunk:
  "extractChunkFromCompleteGrid constants g 0 (- 1) = Inl TypeError \<and>
   extractChunkFromCompleteGrid testConf testGrid (- 1) 0
     = Inr [[EmptyObj, EmptyObj], [EmptyObj, EmptyObj]]"
proof
  show "extractChunkFromCompleteGrid constants g 0 (- 1) = Inl TypeError"
    by (simp add: extractChunkFromCompleteGrid_def constants_def upto_rec1[of 0 99]
        extractCell_def js_nth_def)
  show "extractChunkFromCompleteGrid testConf testGrid (- 1) 0
     = Inr [[EmptyObj, EmptyObj], [EmptyObj, EmptyObj]]"
    by code_simp
qed

subsection \<open>Reveal and chord: what is revealed\<close>

lemma revealsExactly_nothing:
  assumes "wf_grid conf g"
  shows "revealsExactly conf g {} [] g"
  using assms by (simp add: revealsExactly_def markRevealed_empty)

lemma revealsExactly_single:
  assumes wf: "wf_grid conf g" and ib: "inBounds conf gx gy" and c: "cellAt g gx gy = Inr c"
    and nr: "\<not> revealed c" and u: "updatePos conf u = (gx, gy)" "u_cell u = c\<lparr>revealed := True\<rparr>"
  shows "revealsExactly conf g {(gx, gy)} [u] (setCell g gx gy (c\<lparr>revealed := True\<rparr>))"
proof -
  have set': "\<And>x y. inBounds conf x y \<Longrightarrow>
      cellAt (setCell g gx gy (c\<lparr>revealed := True\<rparr>)) x y =
        (if x = gx \<and> y = gy then Inr (c\<lparr>revealed := True\<rparr>) else cellAt g x y)"
    by (rule cellAt_setCell[OF wf ib])
  have "\<forall>x y. inBounds conf x y \<longrightarrow>
      cellAt (setCell g gx gy (c\<lparr>revealed := True\<rparr>)) x y = markRevealed {(gx, gy)} g x y"
    using set' c by (auto simp: markRevealed_def split: sum.splits)
  then show ?thesis
    using wf_grid_setCell[OF wf] ib c nr u set'[OF ib]
    by (simp add: revealsExactly_def revealedIn_def)
qed

lemma revealsExactly_flood:
  assumes wf: "wf_grid conf g" and inv: "floodInv conf g sx sy s"
    and v: "visited s = floodReach conf g sx sy"
  shows "revealsExactly conf g (floodReach conf g sx sy) (revealedList s) (fgrid s)"
proof -
  have "\<forall>(gx, gy) \<in> floodReach conf g sx sy. inBounds conf gx gy \<and> \<not> revealedIn g gx gy"
    using floodReach_inBounds floodReach_floodable
    by (fastforce simp: floodable_def revealedIn_def split: sum.splits)
  then show ?thesis
    unfolding revealsExactly_def
    using floodInv_wf[OF inv] floodInv_distinct[OF inv] floodInv_visited[OF inv]
      floodInv_cell[OF inv] floodInv_ucell[OF inv] v
    by auto
qed

lemma finite_revealSet: "finite (revealSet conf g gx gy)"
  by (simp add: revealSet_def finite_floodReach)

lemma revealSet_flood:
  assumes "inBounds conf gx gy" "cellAt g gx gy = Inr c" "\<not> (revealed c \<or> flagged c)"
    "adjacentMines c = 0 \<and> \<not> hasMine c"
  shows "revealSet conf g gx gy = floodReach conf g gx gy" "floodable g gx gy"
  using assms by (auto simp: revealSet_def revealedIn_def flaggedIn_def zeroCell_def floodable_def)

text \<open>
  What a call of \<^verbatim>\<open>revealCellWithFlood\<close> that returns has done, and when it returns.
\<close>

lemma revealCellWithFlood_spec:
  assumes wf: "wf_grid conf (completeGrid w)" and S: "0 < CHUNK_SIZE conf"
    and ib: "inBounds conf gx gy"
    and run: "revealCellWithFlood conf depth gx gy w = Inr r"
  shows "revealOutcome conf (completeGrid w) w (revealSet conf (completeGrid w) gx gy) 0 (Inr r)"
proof -
  let ?g = "completeGrid w"
  from cellAt_wf_ex[OF wf ib] obtain c where c: "cellAt ?g gx gy = Inr c" by blast
  show ?thesis
  proof (cases "revealed c \<or> flagged c")
    case True
    then have r: "r = ([], w)"
      using c run by (simp add: revealCellWithFlood_def)
    have P: "revealSet conf ?g gx gy = {}"
      using True c by (auto simp: revealSet_def revealedIn_def flaggedIn_def)
    show ?thesis unfolding r P using revealsExactly_nothing[OF wf] by (simp add: revealOutcome_def)
  next
    case nrf: False
    show ?thesis
    proof (cases "adjacentMines c = 0 \<and> \<not> hasMine c")
      case True
      from run c nrf True obtain s' where
        s': "flood conf depth gx gy \<lparr>visited = {}, fgrid = ?g, revealedList = []\<rparr> = Inr s'"
        and r: "r = (revealedList s', w\<lparr>completeGrid := fgrid s'\<rparr>)"
        by (auto simp: revealCellWithFlood_def split: sum.splits)
      note P = revealSet_flood[OF ib c nrf True]
      from flood_top_spec[OF wf S ib P(2) s']
      have f: "floodInv conf ?g gx gy s'" "visited s' = floodReach conf ?g gx gy" by simp_all
      show ?thesis unfolding r P(1) using revealsExactly_flood[OF wf f]
        by (simp add: revealOutcome_def)
    next
      case False
      let ?c' = "c\<lparr>revealed := True\<rparr>"
      have up: "updatePos conf (mkUpdate conf gx gy ?c') = (gx, gy)"
        using updatePos_mkUpdate[OF S] ib by (simp add: inBounds_def)
      have r: "r = ([mkUpdate conf gx gy ?c'], w\<lparr>completeGrid := setCell ?g gx gy ?c'\<rparr>)"
        using c nrf False run by (auto simp: revealCellWithFlood_def Let_def)
      have P: "revealSet conf ?g gx gy = {(gx, gy)}"
        using c nrf False ib by (auto simp: revealSet_def revealedIn_def flaggedIn_def zeroCell_def)
      have "revealsExactly conf ?g {(gx, gy)} [mkUpdate conf gx gy ?c'] (setCell ?g gx gy ?c')"
        by (rule revealsExactly_single[OF wf ib c _ up]) (use nrf in \<open>simp_all add: mkUpdate_def\<close>)
      then show ?thesis unfolding r P by (simp add: revealOutcome_def)
    qed
  qed
qed

lemma revealCellWithFlood_returns:
  assumes wf: "wf_grid conf (completeGrid w)" and S: "0 < CHUNK_SIZE conf"
    and ib: "inBounds conf gx gy"
    and d: "card (revealSet conf (completeGrid w) gx gy) \<le> depth"
  shows "\<exists>r. revealCellWithFlood conf depth gx gy w = Inr r"
proof -
  let ?g = "completeGrid w"
  from cellAt_wf_ex[OF wf ib] obtain c where c: "cellAt ?g gx gy = Inr c" by blast
  show ?thesis
  proof (cases "\<not> (revealed c \<or> flagged c) \<and> adjacentMines c = 0 \<and> \<not> hasMine c")
    case True
    then have nrf: "\<not> (revealed c \<or> flagged c)" and z: "adjacentMines c = 0 \<and> \<not> hasMine c"
      by simp_all
    note P = revealSet_flood[OF ib c nrf z]
    from flood_top_returns[OF wf S ib P(2)] d obtain s' where
      "flood conf depth gx gy \<lparr>visited = {}, fgrid = ?g, revealedList = []\<rparr> = Inr s'"
      unfolding P(1) by blast
    then show ?thesis using c nrf z by (simp add: revealCellWithFlood_def)
  next
    case False
    then show ?thesis using c by (auto simp: revealCellWithFlood_def Let_def)
  qed
qed

lemma revealCellWithFlood_error:
  assumes wf: "wf_grid conf (completeGrid w)" and S: "0 < CHUNK_SIZE conf"
    and ib: "inBounds conf gx gy"
  shows "revealCellWithFlood conf depth gx gy w \<noteq> Inl TypeError"
proof -
  let ?g = "completeGrid w"
  from cellAt_wf_ex[OF wf ib] obtain c where c: "cellAt ?g gx gy = Inr c" by blast
  show ?thesis
  proof (cases "\<not> (revealed c \<or> flagged c) \<and> adjacentMines c = 0 \<and> \<not> hasMine c")
    case True
    then have nrf: "\<not> (revealed c \<or> flagged c)" and z: "adjacentMines c = 0 \<and> \<not> hasMine c"
      by simp_all
    note P = revealSet_flood[OF ib c nrf z]
    from flood_top_error[OF wf S ib P(2), of depth] show ?thesis
      using c nrf z by (auto simp: revealCellWithFlood_def split: sum.splits)
  next
    case False
    then show ?thesis using c by (auto simp: revealCellWithFlood_def Let_def)
  qed
qed

lemma revealCell_outside:
  assumes "\<not> inBounds conf (cx * CHUNK_SIZE conf + lx) (cy * CHUNK_SIZE conf + ly)"
  shows "revealCell conf depth cx cy lx ly w = Inr ([], w)"
  using assms by (auto simp: revealCell_def Let_def inBounds_def)

lemma revealCell_opened:
  assumes "cellAt (completeGrid w) (cx * CHUNK_SIZE conf + lx) (cy * CHUNK_SIZE conf + ly) = Inr c"
    and "revealed c \<or> flagged c"
  shows "revealCell conf depth cx cy lx ly w = Inr ([], w)"
  using assms by (auto simp: revealCell_def Let_def)

text \<open>
  The same for \<^verbatim>\<open>revealCell\<close>, which also tests the bounds and counts an exploded mine.
\<close>

lemma revealCell_spec:
  assumes wf: "wf_grid conf (completeGrid w)" and S: "0 < CHUNK_SIZE conf"
    and gx: "gx = cx * CHUNK_SIZE conf + lx" and gy: "gy = cy * CHUNK_SIZE conf + ly"
    and run: "revealCell conf depth cx cy lx ly w = Inr r"
  shows "revealOutcome conf (completeGrid w) w (revealSet conf (completeGrid w) gx gy)
           (if revealSet conf (completeGrid w) gx gy \<noteq> {} \<and> mineAt (completeGrid w) gx gy then 1 else 0)
           (Inr r)"
proof (cases "inBounds conf gx gy")
  case False
  then have r: "r = ([], w)"
    using gx gy run by (simp add: revealCell_outside)
  have P: "revealSet conf (completeGrid w) gx gy = {}" using False by (simp add: revealSet_def)
  show ?thesis unfolding r P using revealsExactly_nothing[OF wf] by (simp add: revealOutcome_def)
next
  case ib: True
  let ?g = "completeGrid w"
  have nb: "\<not> (gx < 0 \<or> gx \<ge> GRID_WIDTH conf \<or> gy < 0 \<or> gy \<ge> GRID_HEIGHT conf)"
    using ib by (auto simp: inBounds_def)
  from cellAt_wf_ex[OF wf ib] obtain c where c: "cellAt ?g gx gy = Inr c" by blast
  show ?thesis
  proof (cases "revealed c \<or> flagged c")
    case True
    then have r: "r = ([], w)"
      using c gx gy run by (simp add: revealCell_opened)
    have P: "revealSet conf ?g gx gy = {}"
      using True c by (auto simp: revealSet_def revealedIn_def flaggedIn_def)
    show ?thesis unfolding r P using revealsExactly_nothing[OF wf] by (simp add: revealOutcome_def)
  next
    case nrf: False
    show ?thesis
    proof (cases "adjacentMines c = 0 \<and> \<not> hasMine c")
      case True
      from run c nrf True nb gx gy obtain s' where
        s': "flood conf depth gx gy \<lparr>visited = {}, fgrid = ?g, revealedList = []\<rparr> = Inr s'"
        and r: "r = (revealedList s', w\<lparr>completeGrid := fgrid s'\<rparr>)"
        by (auto simp: revealCell_def Let_def split: sum.splits)
      note P = revealSet_flood[OF ib c nrf True]
      from flood_top_spec[OF wf S ib P(2) s']
      have f: "floodInv conf ?g gx gy s'" "visited s' = floodReach conf ?g gx gy" by simp_all
      have m: "\<not> mineAt ?g gx gy" using c True by (simp add: mineAt_def)
      show ?thesis unfolding r P(1) using revealsExactly_flood[OF wf f] m
        by (simp add: revealOutcome_def)
    next
      case False
      let ?c' = "c\<lparr>revealed := True\<rparr>"
      let ?u = "\<lparr>u_cx = cx, u_cy = cy, u_x = lx, u_y = ly, u_cell = ?c'\<rparr>"
      have up: "updatePos conf ?u = (gx, gy)" using gx gy by (simp add: updatePos_def)
      have r: "r = ([?u], w\<lparr>completeGrid := setCell ?g gx gy ?c',
                     bombsExploded := (if hasMine c then bombsExploded w + 1 else bombsExploded w)\<rparr>)"
        using c nrf False nb gx gy run by (auto simp: revealCell_def Let_def)
      have P: "revealSet conf ?g gx gy = {(gx, gy)}"
        using c nrf False ib by (auto simp: revealSet_def revealedIn_def flaggedIn_def zeroCell_def)
      have m: "mineAt ?g gx gy = hasMine c" using c by (simp add: mineAt_def)
      have "revealsExactly conf ?g {(gx, gy)} [?u] (setCell ?g gx gy ?c')"
        by (rule revealsExactly_single[OF wf ib c _ up]) (use nrf in simp_all)
      then show ?thesis unfolding r P using m by (simp add: revealOutcome_def)
    qed
  qed
qed

lemma revealCell_error:
  assumes wf: "wf_grid conf (completeGrid w)" and S: "0 < CHUNK_SIZE conf"
  shows "revealCell conf depth cx cy lx ly w \<noteq> Inl TypeError"
proof (cases "inBounds conf (cx * CHUNK_SIZE conf + lx) (cy * CHUNK_SIZE conf + ly)")
  case False
  then show ?thesis by (simp add: revealCell_outside)
next
  case ib: True
  let ?g = "completeGrid w" and ?gx = "cx * CHUNK_SIZE conf + lx" and ?gy = "cy * CHUNK_SIZE conf + ly"
  have nb: "\<not> (?gx < 0 \<or> ?gx \<ge> GRID_WIDTH conf \<or> ?gy < 0 \<or> ?gy \<ge> GRID_HEIGHT conf)"
    using ib by (auto simp: inBounds_def)
  from cellAt_wf_ex[OF wf ib] obtain c where c: "cellAt ?g ?gx ?gy = Inr c" by blast
  show ?thesis
  proof (cases "\<not> (revealed c \<or> flagged c) \<and> adjacentMines c = 0 \<and> \<not> hasMine c")
    case True
    then have nrf: "\<not> (revealed c \<or> flagged c)" and z: "adjacentMines c = 0 \<and> \<not> hasMine c"
      by simp_all
    note P = revealSet_flood[OF ib c nrf z]
    from flood_top_error[OF wf S ib P(2), of depth] show ?thesis
      using c nrf z nb by (auto simp: revealCell_def Let_def split: sum.splits)
  next
    case False
    then show ?thesis using c nb by (auto simp: revealCell_def Let_def)
  qed
qed

lemma revealCell_returns:
  assumes wf: "wf_grid conf (completeGrid w)" and S: "0 < CHUNK_SIZE conf"
    and gx: "gx = cx * CHUNK_SIZE conf + lx" and gy: "gy = cy * CHUNK_SIZE conf + ly"
    and d: "card (revealSet conf (completeGrid w) gx gy) \<le> depth"
  shows "\<exists>r. revealCell conf depth cx cy lx ly w = Inr r"
proof (cases "inBounds conf gx gy")
  case False
  then show ?thesis using gx gy by (simp add: revealCell_outside)
next
  case ib: True
  let ?g = "completeGrid w"
  have nb: "\<not> (gx < 0 \<or> gx \<ge> GRID_WIDTH conf \<or> gy < 0 \<or> gy \<ge> GRID_HEIGHT conf)"
    using ib by (auto simp: inBounds_def)
  from cellAt_wf_ex[OF wf ib] obtain c where c: "cellAt ?g gx gy = Inr c" by blast
  show ?thesis
  proof (cases "\<not> (revealed c \<or> flagged c) \<and> adjacentMines c = 0 \<and> \<not> hasMine c")
    case True
    then have nrf: "\<not> (revealed c \<or> flagged c)" and z: "adjacentMines c = 0 \<and> \<not> hasMine c"
      by simp_all
    note P = revealSet_flood[OF ib c nrf z]
    from flood_top_returns[OF wf S ib P(2)] d obtain s' where
      "flood conf depth gx gy \<lparr>visited = {}, fgrid = ?g, revealedList = []\<rparr> = Inr s'"
      unfolding P(1) by blast
    then show ?thesis using c nrf z nb gx gy by (simp add: revealCell_def Let_def)
  next
    case False
    then show ?thesis using c nb gx gy by (auto simp: revealCell_def Let_def)
  qed
qed

lemma revealsExactly_wf: "revealsExactly conf g P outs g' \<Longrightarrow> wf_grid conf g'"
  unfolding revealsExactly_def by blast

lemma revealsExactly_distinct: "revealsExactly conf g P outs g' \<Longrightarrow> distinct (map (updatePos conf) outs)"
  unfolding revealsExactly_def by blast

lemma revealsExactly_set: "revealsExactly conf g P outs g' \<Longrightarrow> set (map (updatePos conf) outs) = P"
  unfolding revealsExactly_def by blast

lemma revealsExactly_fresh:
  "revealsExactly conf g P outs g' \<Longrightarrow> (gx, gy) \<in> P \<Longrightarrow> inBounds conf gx gy \<and> \<not> revealedIn g gx gy"
  unfolding revealsExactly_def by blast

lemma revealsExactly_cell:
  "revealsExactly conf g P outs g' \<Longrightarrow> inBounds conf gx gy \<Longrightarrow> cellAt g' gx gy = markRevealed P g gx gy"
  unfolding revealsExactly_def by blast

lemma revealsExactly_ucell:
  "revealsExactly conf g P outs g' \<Longrightarrow> u \<in> set outs \<Longrightarrow>
     cellAt g' (fst (updatePos conf u)) (snd (updatePos conf u)) = Inr (u_cell u)"
  unfolding revealsExactly_def by blast

lemma revealsExactly_frame:
  assumes "revealsExactly conf g P outs g'" "inBounds conf gx gy" "(gx, gy) \<notin> P"
  shows "cellAt g' gx gy = cellAt g gx gy"
  using revealsExactly_cell[OF assms(1,2)] assms(3)
  by (simp add: markRevealed_def split: sum.splits)

lemma revealsExactly_revealed:
  assumes wf: "wf_grid conf g" and r: "revealsExactly conf g P outs g'" and p: "(gx, gy) \<in> P"
  shows "revealedIn g' gx gy"
proof -
  have ib: "inBounds conf gx gy" using revealsExactly_fresh[OF r p] by simp
  from cellAt_wf_ex[OF wf ib] obtain c where "cellAt g gx gy = Inr c" by blast
  then show ?thesis using revealsExactly_cell[OF r ib] p
    by (simp add: markRevealed_def revealedIn_def)
qed


lemma revealsExactly_keeps:
  assumes wf: "wf_grid conf g" and r: "revealsExactly conf g P outs g'" and ib: "inBounds conf gx gy"
  shows "\<exists>c. cellAt g gx gy = Inr c \<and>
             cellAt g' gx gy = Inr (c\<lparr>revealed := revealed c \<or> (gx, gy) \<in> P\<rparr>)"
proof -
  from cellAt_wf_ex[OF wf ib] obtain c where c: "cellAt g gx gy = Inr c" by blast
  have "c\<lparr>revealed := revealed c\<rparr> = c" by simp
  then show ?thesis using revealsExactly_cell[OF r ib] c by (auto simp: markRevealed_def)
qed

lemma markRevealed_twice:
  assumes "cellAt g1 gx gy = markRevealed P g gx gy"
  shows "markRevealed Q g1 gx gy = markRevealed (P \<union> Q) g gx gy"
  using assms by (auto simp: markRevealed_def split: sum.splits)

lemma markRevealed_eq_cellAt:
  assumes "cellAt g1 gx gy = markRevealed P g gx gy"
  shows "markRevealed Q g1 gx gy = (case markRevealed P g gx gy of Inl e \<Rightarrow> Inl e
            | Inr c \<Rightarrow> Inr (if (gx, gy) \<in> Q then c\<lparr>revealed := True\<rparr> else c))"
  using assms by (simp add: markRevealed_def)

lemma revealsExactly_append:
  assumes wf: "wf_grid conf g"
    and r1: "revealsExactly conf g P1 o1 g1" and r2: "revealsExactly conf g1 P2 o2 g2"
  shows "revealsExactly conf g (P1 \<union> P2) (o1 @ o2) g2"
proof -
  have wf1: "wf_grid conf g1" using r1 by (rule revealsExactly_wf)
  have disj: "P1 \<inter> P2 = {}"
  proof (rule ccontr)
    assume "P1 \<inter> P2 \<noteq> {}"
    then obtain gx gy where p: "(gx, gy) \<in> P1" "(gx, gy) \<in> P2" by auto
    from revealsExactly_revealed[OF wf r1 p(1)] revealsExactly_fresh[OF r2 p(2)]
    show False by simp
  qed
  have 1: "wf_grid conf g2" using r2 by (rule revealsExactly_wf)
  have 2: "distinct (map (updatePos conf) (o1 @ o2))"
    using revealsExactly_distinct[OF r1] revealsExactly_distinct[OF r2]
      revealsExactly_set[OF r1] revealsExactly_set[OF r2] disj by simp
  have 3: "set (map (updatePos conf) (o1 @ o2)) = P1 \<union> P2"
    using revealsExactly_set[OF r1] revealsExactly_set[OF r2] by simp
  have 4: "\<forall>(gx, gy) \<in> P1 \<union> P2. inBounds conf gx gy \<and> \<not> revealedIn g gx gy"
  proof (clarify)
    fix gx gy assume p: "(gx, gy) \<in> P1 \<union> P2"
    show "inBounds conf gx gy \<and> \<not> revealedIn g gx gy"
    proof (cases "(gx, gy) \<in> P1")
      case True
      then show ?thesis using revealsExactly_fresh[OF r1] by simp
    next
      case False
      then have p2: "(gx, gy) \<in> P2" using p by simp
      from revealsExactly_fresh[OF r2 p2] have ib: "inBounds conf gx gy"
        and nr: "\<not> revealedIn g1 gx gy" by simp_all
      from revealsExactly_frame[OF r1 ib False] nr show ?thesis using ib by (simp add: revealedIn_def)
    qed
  qed
  have 5: "\<forall>gx gy. inBounds conf gx gy \<longrightarrow> cellAt g2 gx gy = markRevealed (P1 \<union> P2) g gx gy"
  proof (intro allI impI)
    fix gx gy assume ib: "inBounds conf gx gy"
    show "cellAt g2 gx gy = markRevealed (P1 \<union> P2) g gx gy"
      using revealsExactly_cell[OF r2 ib] markRevealed_twice[OF revealsExactly_cell[OF r1 ib]]
      by simp
  qed
  have 6: "\<forall>u \<in> set (o1 @ o2).
        cellAt g2 (fst (updatePos conf u)) (snd (updatePos conf u)) = Inr (u_cell u)"
  proof
    fix u assume u: "u \<in> set (o1 @ o2)"
    show "cellAt g2 (fst (updatePos conf u)) (snd (updatePos conf u)) = Inr (u_cell u)"
    proof (cases "u \<in> set o2")
      case True
      then show ?thesis by (rule revealsExactly_ucell[OF r2])
    next
      case False
      then have u1: "u \<in> set o1" using u by simp
      then have p1: "updatePos conf u \<in> P1" using revealsExactly_set[OF r1] by auto
      then have np2: "(fst (updatePos conf u), snd (updatePos conf u)) \<notin> P2" using disj by auto
      have ib: "inBounds conf (fst (updatePos conf u)) (snd (updatePos conf u))"
        using revealsExactly_fresh[OF r1, of "fst (updatePos conf u)" "snd (updatePos conf u)"] p1
        by simp
      from revealsExactly_frame[OF r2 ib np2] revealsExactly_ucell[OF r1 u1] show ?thesis by simp
    qed
  qed
  show ?thesis unfolding revealsExactly_def using 1 2 3 4 5 6 by blast
qed

lemma chordScan_spec:
  assumes wf: "wf_grid conf g"
  shows "chordScan conf g gx gy ds (f, r, a) =
     Inr (f + int (length (filter (\<lambda>(nx, ny). inBounds conf nx ny \<and> flaggedIn g nx ny)
                                  (map (\<lambda>(dx, dy). (gx + dx, gy + dy)) ds))),
          r + int (length (filter (\<lambda>(nx, ny). inBounds conf nx ny \<and> \<not> flaggedIn g nx ny \<and>
                                      revealedIn g nx ny \<and> mineAt g nx ny)
                                  (map (\<lambda>(dx, dy). (gx + dx, gy + dy)) ds))),
          a @ filter (\<lambda>(nx, ny). inBounds conf nx ny \<and> \<not> flaggedIn g nx ny \<and> \<not> revealedIn g nx ny)
                 (map (\<lambda>(dx, dy). (gx + dx, gy + dy)) ds))"
proof (induction ds arbitrary: f r a)
  case Nil
  then show ?case by simp
next
  case (Cons d ds)
  obtain dx dy where d: "d = (dx, dy)" by (cases d)
  show ?case
  proof (cases "inBounds conf (gx + dx) (gy + dy)")
    case False
    then show ?thesis using Cons.IH d by (simp add: Let_def)
  next
    case True
    from cellAt_wf_ex[OF wf True] obtain n where n: "cellAt g (gx + dx) (gy + dy) = Inr n" by blast
    then show ?thesis using True Cons.IH d
      by (simp add: Let_def flaggedIn_def revealedIn_def mineAt_def)
  qed
qed

lemma chordScan_offsets:
  assumes wf: "wf_grid conf g"
  shows "chordScan conf g gx gy offsets (0, 0, []) =
     Inr (int (length (chordFlagged conf g gx gy)), int (length (chordRevealedMines conf g gx gy)),
          chordCandidates conf g gx gy)"
  unfolding chordScan_spec[OF wf] chordFlagged_def chordRevealedMines_def chordCandidates_def
    neighbours_def by simp

lemma distinct_neighbours: "distinct (neighbours gx gy)"
  by (simp add: neighbours_def offsets_def)

lemma floodReach_closed: "closedUnder conf g (floodReach conf g sx sy)"
  unfolding closedUnder_def expanded_def using floodReach.step by blast

lemma closedUnder_Un:
  assumes "closedUnder conf g P" "closedUnder conf g Q"
  shows "closedUnder conf g (P \<union> Q)"
  using assms unfolding closedUnder_def expanded_def by blast

lemma closedUnder_empty: "closedUnder conf g {}"
  by (simp add: closedUnder_def)

lemma closedUnder_single: "\<not> zeroCell g gx gy \<Longrightarrow> closedUnder conf g {(gx, gy)}"
  by (simp add: closedUnder_def expanded_def)

lemma floodReach_in_closed:
  assumes c: "closedUnder conf g Q" and s: "(sx, sy) \<in> Q"
  shows "floodReach conf g sx sy \<subseteq> Q"
proof -
  have "(gx, gy) \<in> Q" if "(gx, gy) \<in> floodReach conf g sx sy" for gx gy
    using that
  proof (induction rule: floodReach.induct)
    case start
    show ?case by (rule s)
  next
    case (step gx gy dx dy)
    then show ?case using c unfolding closedUnder_def expanded_def by blast
  qed
  then show ?thesis by auto
qed

lemma closedUnder_revealSet: "closedUnder conf g (revealSet conf g gx gy)"
  by (simp add: revealSet_def closedUnder_empty floodReach_closed closedUnder_single)

lemma revealSet_no_mine:
  assumes "(nx, ny) \<in> revealSet conf g gx gy" "\<not> mineAt g gx gy"
  shows "\<not> mineAt g nx ny"
proof (cases "zeroCell g gx gy")
  case True
  then have "(nx, ny) \<in> floodReach conf g gx gy" using assms(1) by (auto simp: revealSet_def split: if_splits)
  from floodReach_floodable[OF this] show ?thesis
    by (auto simp: floodable_def mineAt_def split: sum.splits)
next
  case False
  then show ?thesis using assms by (auto simp: revealSet_def split: if_splits)
qed

text \<open>A grid that is \<open>g\<close> with the cells of \<open>Q\<close> revealed.\<close>

lemma marked_props:
  assumes m: "cellAt g1 gx gy = markRevealed Q g gx gy"
  shows "zeroCell g1 gx gy = zeroCell g gx gy" "mineAt g1 gx gy = mineAt g gx gy"
    "flaggedIn g1 gx gy = flaggedIn g gx gy"
    "revealedIn g1 gx gy \<longleftrightarrow> revealedIn g gx gy \<or> ((gx, gy) \<in> Q \<and> (\<exists>c. cellAt g gx gy = Inr c))"
    "floodable g1 gx gy \<longleftrightarrow> floodable g gx gy \<and> (gx, gy) \<notin> Q"
  using m by (auto simp: markRevealed_def zeroCell_def mineAt_def flaggedIn_def revealedIn_def
      floodable_def split: sum.splits)

lemma floodReach_marked_sub:
  assumes m: "\<And>gx gy. inBounds conf gx gy \<Longrightarrow> cellAt g1 gx gy = markRevealed Q g gx gy"
  shows "floodReach conf g1 sx sy \<subseteq> floodReach conf g sx sy"
proof -
  have "(gx, gy) \<in> floodReach conf g sx sy" if "(gx, gy) \<in> floodReach conf g1 sx sy" for gx gy
    using that
  proof (induction rule: floodReach.induct)
    case start
    then show ?case using marked_props(5)[OF m] by (simp add: floodReach.start)
  next
    case (step gx gy dx dy)
    have "inBounds conf gx gy" using step.hyps(1) by (rule floodReach_inBounds)
    then have "zeroCell g gx gy" using step.hyps(2) marked_props(1)[OF m] by simp
    moreover have "floodable g (gx + dx) (gy + dy)"
      using step.hyps(4,5) marked_props(5)[OF m] by simp
    ultimately show ?case using step.IH step.hyps(3,4) by (simp add: floodReach.step)
  qed
  then show ?thesis by auto
qed

lemma floodReach_marked_sup:
  assumes m: "\<And>gx gy. inBounds conf gx gy \<Longrightarrow> cellAt g1 gx gy = markRevealed Q g gx gy"
    and c: "closedUnder conf g Q"
  shows "floodReach conf g sx sy \<subseteq> floodReach conf g1 sx sy \<union> Q"
proof -
  have "(gx, gy) \<in> floodReach conf g1 sx sy \<union> Q" if "(gx, gy) \<in> floodReach conf g sx sy" for gx gy
    using that
  proof (induction rule: floodReach.induct)
    case start
    then show ?case using marked_props(5)[OF m] floodReach.start[of conf sx sy g1] by auto
  next
    case (step gx gy dx dy)
    show ?case
    proof (cases "(gx + dx, gy + dy) \<in> Q")
      case True
      then show ?thesis by simp
    next
      case nq: False
      then have f1: "floodable g1 (gx + dx) (gy + dy)"
        using step.hyps(4,5) marked_props(5)[OF m] by simp
      show ?thesis
      proof (cases "(gx, gy) \<in> Q")
        case True
        then have "(gx + dx, gy + dy) \<in> Q"
          using c step.hyps(2,3,4,5) unfolding closedUnder_def expanded_def by blast
        then show ?thesis by simp
      next
        case False
        then have r1: "(gx, gy) \<in> floodReach conf g1 sx sy" using step.IH by simp
        have "inBounds conf gx gy" using step.hyps(1) by (rule floodReach_inBounds)
        then have "zeroCell g1 gx gy" using step.hyps(2) marked_props(1)[OF m] by simp
        from floodReach.step[OF r1 this step.hyps(3,4) f1] show ?thesis by simp
      qed
    qed
  qed
  then show ?thesis by auto
qed

lemma revealSet_marked:
  assumes m: "\<And>gx gy. inBounds conf gx gy \<Longrightarrow> cellAt g1 gx gy = markRevealed Q g gx gy"
    and c: "closedUnder conf g Q" and ib: "inBounds conf nx ny"
    and nr: "\<not> revealedIn g nx ny"
  shows "Q \<union> revealSet conf g1 nx ny = Q \<union> revealSet conf g nx ny"
proof (cases "flaggedIn g nx ny")
  case True
  then show ?thesis using marked_props(3)[OF m[OF ib]] by (simp add: revealSet_def)
next
  case nf: False
  then have nf1: "\<not> flaggedIn g1 nx ny" using marked_props(3)[OF m[OF ib]] by simp
  show ?thesis
  proof (cases "(nx, ny) \<in> Q")
    case True
    have "revealSet conf g nx ny \<subseteq> Q"
      using floodReach_in_closed[OF c True] True by (auto simp: revealSet_def)
    moreover have "revealSet conf g1 nx ny \<subseteq> revealSet conf g nx ny"
      using floodReach_marked_sub[OF m, where sx = nx and sy = ny] marked_props(1)[OF m[OF ib]] nf nr ib
      by (auto simp: revealSet_def split: if_splits)
    ultimately show ?thesis by blast
  next
    case False
    then have nr1: "\<not> revealedIn g1 nx ny" using nr marked_props(4)[OF m[OF ib]] by simp
    show ?thesis
    proof (cases "zeroCell g nx ny")
      case True
      then have z1: "zeroCell g1 nx ny" using marked_props(1)[OF m[OF ib]] by simp
      have "revealSet conf g nx ny = floodReach conf g nx ny"
        "revealSet conf g1 nx ny = floodReach conf g1 nx ny"
        using True z1 nf nf1 nr nr1 ib by (simp_all add: revealSet_def)
      then show ?thesis
        using floodReach_marked_sub[OF m, where sx = nx and sy = ny] floodReach_marked_sup[OF m c, where sx = nx and sy = ny] by auto
    next
      case False
      then have z1: "\<not> zeroCell g1 nx ny" using marked_props(1)[OF m[OF ib]] by simp
      show ?thesis using False z1 nf nf1 nr nr1 ib by (simp add: revealSet_def)
    qed
  qed
qed

lemma chordSetOf_Nil: "chordSetOf conf g [] = {}"
  by (simp add: chordSetOf_def)

lemma chordSetOf_Cons:
  "chordSetOf conf g ((nx, ny) # cs) =
     (if mineAt g nx ny then {(nx, ny)} else revealSet conf g nx ny) \<union> chordSetOf conf g cs"
  by (auto simp: chordSetOf_def)

lemma revealOutcome_Inr:
  "revealOutcome conf g w P b (Inr (outs, w')) \<longleftrightarrow>
     gridChunks w' = gridChunks w \<and> bombsExploded w' = bombsExploded w + b \<and>
     revealsExactly conf g P outs (completeGrid w')"
  by (simp add: revealOutcome_def)

lemma revealOutcomeE:
  assumes "revealOutcome conf g w P b res"
  obtains outs w' where "res = Inr (outs, w')" "gridChunks w' = gridChunks w"
    "bombsExploded w' = bombsExploded w + b" "revealsExactly conf g P outs (completeGrid w')"
  using assms by (auto simp: revealOutcome_def split: sum.splits)

lemma finite_chordSetOf: "finite (chordSetOf conf g cs)"
proof -
  have "{(nx, ny). (nx, ny) \<in> set cs \<and> mineAt g nx ny} \<subseteq> set cs" by auto
  then have "finite {(nx, ny). (nx, ny) \<in> set cs \<and> mineAt g nx ny}"
    by (rule finite_subset) simp
  moreover have "finite (\<Union>(nx, ny) \<in> set cs. if mineAt g nx ny then {} else revealSet conf g nx ny)"
    by (auto simp: finite_revealSet)
  ultimately show ?thesis by (simp add: chordSetOf_def)
qed

lemma revealOutcome_shift:
  assumes "revealOutcome conf g w1 P b (Inr r)" "gridChunks w1 = gridChunks w"
    "bombsExploded w1 = bombsExploded w + a"
  shows "revealOutcome conf g w P (a + b) (Inr r)"
  using assms by (cases r) (simp add: revealOutcome_def)

text \<open>
  The loop of the chord over the candidates \<open>cs\<close>, entered with the cells \<open>Q\<close> revealed and
  listed in \<open>acc\<close>: it returns when the call stack holds one nested call for every cell it
  leaves revealed, and when it returns it has revealed exactly \<open>Q\<close> and what the candidates
  reveal.
\<close>

lemma chordLoop_spec:
  assumes wf: "wf_grid conf g" and S: "0 < CHUNK_SIZE conf"
  shows "revealsExactly conf g Q acc (completeGrid w) \<Longrightarrow> closedUnder conf g Q \<Longrightarrow>
         (\<forall>(nx, ny) \<in> set cs. inBounds conf nx ny \<and> \<not> flaggedIn g nx ny \<and> \<not> revealedIn g nx ny) \<Longrightarrow>
         distinct cs \<Longrightarrow> (\<forall>(nx, ny) \<in> set cs. mineAt g nx ny \<longrightarrow> (nx, ny) \<notin> Q) \<Longrightarrow>
         (card (Q \<union> chordSetOf conf g cs) \<le> depth \<longrightarrow> (\<exists>r. chordLoop conf depth cs acc w = Inr r)) \<and>
         (\<forall>r. chordLoop conf depth cs acc w = Inr r \<longrightarrow>
            revealOutcome conf g w (Q \<union> chordSetOf conf g cs)
              (int (length (filter (\<lambda>(nx, ny). mineAt g nx ny) cs))) (Inr r))"
proof (induction cs arbitrary: Q acc w)
  case Nil
  then show ?case by (simp add: chordSetOf_Nil revealOutcome_Inr)
next
  case (Cons n cs)
  obtain nx ny where n: "n = (nx, ny)" by (cases n)
  let ?gc = "completeGrid w"
  have wfc: "wf_grid conf ?gc" using Cons.prems(1) by (rule revealsExactly_wf)
  have m: "\<And>gx gy. inBounds conf gx gy \<Longrightarrow> cellAt ?gc gx gy = markRevealed Q g gx gy"
    by (rule revealsExactly_cell[OF Cons.prems(1)])
  have ib: "inBounds conf nx ny" and nf: "\<not> flaggedIn g nx ny" and nr: "\<not> revealedIn g nx ny"
    using Cons.prems(3) n by auto
  have rest: "\<forall>(nx, ny) \<in> set cs. inBounds conf nx ny \<and> \<not> flaggedIn g nx ny \<and> \<not> revealedIn g nx ny"
    "distinct cs" "(nx, ny) \<notin> set cs"
    using Cons.prems(3,4) n by auto
  from cellAt_wf_ex[OF wfc ib] obtain c where c: "cellAt ?gc nx ny = Inr c" by blast
  have mc: "mineAt g nx ny = hasMine c"
    using marked_props(2)[OF m[OF ib]] c by (simp add: mineAt_def)
  show ?case
  proof (cases "mineAt g nx ny")
    case True
    then have nq: "(nx, ny) \<notin> Q" using Cons.prems(5) n by auto
    have "\<not> revealedIn ?gc nx ny" using marked_props(4)[OF m[OF ib]] nr nq by simp
    then have nrc: "\<not> revealed c" using c by (simp add: revealedIn_def)
    let ?c' = "c\<lparr>revealed := True\<rparr>"
    let ?w1 = "w\<lparr>completeGrid := setCell ?gc nx ny ?c', bombsExploded := bombsExploded w + 1\<rparr>"
    have up: "updatePos conf (mkUpdate conf nx ny ?c') = (nx, ny)"
      using updatePos_mkUpdate[OF S] ib by (simp add: inBounds_def)
    have "revealsExactly conf ?gc {(nx, ny)} [mkUpdate conf nx ny ?c'] (setCell ?gc nx ny ?c')"
      by (rule revealsExactly_single[OF wfc ib c nrc up]) (simp add: mkUpdate_def)
    from revealsExactly_append[OF wf Cons.prems(1) this]
    have r1: "revealsExactly conf g (Q \<union> {(nx, ny)}) (acc @ [mkUpdate conf nx ny ?c']) (completeGrid ?w1)"
      by simp
    have "\<not> zeroCell g nx ny" using True by (auto simp: zeroCell_def mineAt_def split: sum.splits)
    then have cl: "closedUnder conf g (Q \<union> {(nx, ny)})"
      using closedUnder_Un[OF Cons.prems(2) closedUnder_single] by simp
    have mines: "\<forall>(mx, my) \<in> set cs. mineAt g mx my \<longrightarrow> (mx, my) \<notin> Q \<union> {(nx, ny)}"
      using Cons.prems(5) rest(3) by auto
    note IH = Cons.IH[OF r1 cl rest(1,2) mines]
    have run: "chordLoop conf depth (n # cs) acc w
                 = chordLoop conf depth cs (acc @ [mkUpdate conf nx ny ?c']) ?w1"
      using c n mc True by (simp add: Let_def)
    have sets: "Q \<union> chordSetOf conf g (n # cs) = Q \<union> {(nx, ny)} \<union> chordSetOf conf g cs"
      using True n by (auto simp: chordSetOf_Cons)
    have cnt: "int (length (filter (\<lambda>(nx, ny). mineAt g nx ny) (n # cs)))
                 = 1 + int (length (filter (\<lambda>(nx, ny). mineAt g nx ny) cs))"
      using True n by simp
    have "revealOutcome conf g w (Q \<union> chordSetOf conf g (n # cs))
            (int (length (filter (\<lambda>(nx, ny). mineAt g nx ny) (n # cs)))) (Inr r)"
      if "chordLoop conf depth (n # cs) acc w = Inr r" for r
    proof -
      from that IH have "revealOutcome conf g ?w1 (Q \<union> {(nx, ny)} \<union> chordSetOf conf g cs)
            (int (length (filter (\<lambda>(nx, ny). mineAt g nx ny) cs))) (Inr r)"
        unfolding run by blast
      then show ?thesis unfolding sets cnt by (rule revealOutcome_shift) simp_all
    qed
    then show ?thesis using IH unfolding run[symmetric] sets[symmetric] by blast
  next
    case False
    have eq: "Q \<union> revealSet conf ?gc nx ny = Q \<union> revealSet conf g nx ny"
      by (rule revealSet_marked[OF m Cons.prems(2) ib nr])
    have sets: "Q \<union> chordSetOf conf g (n # cs) = Q \<union> revealSet conf g nx ny \<union> chordSetOf conf g cs"
      using False n by (auto simp: chordSetOf_Cons)
    have cnt: "int (length (filter (\<lambda>(nx, ny). mineAt g nx ny) (n # cs)))
                 = 0 + int (length (filter (\<lambda>(nx, ny). mineAt g nx ny) cs))"
      using False n by simp
    have cl: "closedUnder conf g (Q \<union> revealSet conf g nx ny)"
      by (rule closedUnder_Un[OF Cons.prems(2) closedUnder_revealSet])
    have mines: "\<forall>(mx, my) \<in> set cs. mineAt g mx my \<longrightarrow> (mx, my) \<notin> Q \<union> revealSet conf g nx ny"
      using Cons.prems(5) revealSet_no_mine[OF _ False] by auto
    have step: "gridChunks w1 = gridChunks w \<and> bombsExploded w1 = bombsExploded w + 0 \<and>
                (card (Q \<union> revealSet conf g nx ny \<union> chordSetOf conf g cs) \<le> depth \<longrightarrow>
                   (\<exists>r. chordLoop conf depth cs (acc @ fl) w1 = Inr r)) \<and>
                (\<forall>r. chordLoop conf depth cs (acc @ fl) w1 = Inr r \<longrightarrow>
                   revealOutcome conf g w1 (Q \<union> revealSet conf g nx ny \<union> chordSetOf conf g cs)
                     (int (length (filter (\<lambda>(nx, ny). mineAt g nx ny) cs))) (Inr r))"
      if f: "revealCellWithFlood conf depth nx ny w = Inr (fl, w1)" for fl w1
    proof -
      have "revealOutcome conf ?gc w (revealSet conf ?gc nx ny) 0 (Inr (fl, w1))"
        by (rule revealCellWithFlood_spec[OF wfc S ib f])
      then have o: "gridChunks w1 = gridChunks w" "bombsExploded w1 = bombsExploded w + 0"
        "revealsExactly conf ?gc (revealSet conf ?gc nx ny) fl (completeGrid w1)"
        by (simp_all add: revealOutcome_Inr)
      from revealsExactly_append[OF wf Cons.prems(1) o(3)]
      have r1: "revealsExactly conf g (Q \<union> revealSet conf g nx ny) (acc @ fl) (completeGrid w1)"
        using eq by simp
      from Cons.IH[OF r1 cl rest(1,2) mines] o(1,2) show ?thesis by blast
    qed
    have run: "chordLoop conf depth (n # cs) acc w = chordLoop conf depth cs (acc @ fl) w1"
      if "revealCellWithFlood conf depth nx ny w = Inr (fl, w1)" for fl w1
      using that c n mc False by (simp add: Let_def)
    have 1: "\<exists>r. chordLoop conf depth (n # cs) acc w = Inr r"
      if d: "card (Q \<union> chordSetOf conf g (n # cs)) \<le> depth"
    proof -
      have fin: "finite (Q \<union> chordSetOf conf g (n # cs))"
        using revealsExactly_set[OF Cons.prems(1)] finite_chordSetOf by (metis List.finite_set finite_Un)
      have "revealSet conf ?gc nx ny \<subseteq> Q \<union> chordSetOf conf g (n # cs)"
        using eq unfolding sets by blast
      from card_mono[OF fin this] d have "card (revealSet conf ?gc nx ny) \<le> depth" by simp
      from revealCellWithFlood_returns[OF wfc S ib this] obtain fl w1 where
        f: "revealCellWithFlood conf depth nx ny w = Inr (fl, w1)" by (metis surj_pair)
      from step[OF f] d show ?thesis unfolding run[OF f] sets by blast
    qed
    have 2: "revealOutcome conf g w (Q \<union> chordSetOf conf g (n # cs))
            (int (length (filter (\<lambda>(nx, ny). mineAt g nx ny) (n # cs)))) (Inr r)"
      if r: "chordLoop conf depth (n # cs) acc w = Inr r" for r
    proof -
      from r c n mc False obtain fl w1 where
        f: "revealCellWithFlood conf depth nx ny w = Inr (fl, w1)"
        by (auto simp: Let_def split: sum.splits)
      from step[OF f] have o: "gridChunks w1 = gridChunks w" "bombsExploded w1 = bombsExploded w + 0"
        by simp_all
      from step[OF f] r have ro: "revealOutcome conf g w1 (Q \<union> revealSet conf g nx ny \<union> chordSetOf conf g cs)
                     (int (length (filter (\<lambda>(nx, ny). mineAt g nx ny) cs))) (Inr r)"
        unfolding run[OF f] by blast
      show ?thesis unfolding sets cnt by (rule revealOutcome_shift[OF ro o])
    qed
    show ?thesis using 1 2 by blast
  qed
qed

lemma chordCandidates_props:
  "\<forall>(nx, ny) \<in> set (chordCandidates conf g gx gy).
      inBounds conf nx ny \<and> \<not> flaggedIn g nx ny \<and> \<not> revealedIn g nx ny"
  by (auto simp: chordCandidates_def)

lemma distinct_chordCandidates: "distinct (chordCandidates conf g gx gy)"
  by (simp add: chordCandidates_def distinct_neighbours)

lemma handleChordClick_noop:
  assumes wf: "wf_grid conf (completeGrid w)"
    and gx: "gx = cx * CHUNK_SIZE conf + lx" and gy: "gy = cy * CHUNK_SIZE conf + ly"
    and no: "\<not> chordable conf (completeGrid w) gx gy \<or> \<not> chordMatches conf (completeGrid w) gx gy"
  shows "handleChordClick conf depth cx cy lx ly w = Inr ([], w)"
proof (cases "inBounds conf gx gy")
  case False
  then show ?thesis using gx gy by (auto simp: handleChordClick_def Let_def inBounds_def)
next
  case ib: True
  have nb: "\<not> (gx < 0 \<or> gx \<ge> GRID_WIDTH conf \<or> gy < 0 \<or> gy \<ge> GRID_HEIGHT conf)"
    using ib by (auto simp: inBounds_def)
  from cellAt_wf_ex[OF wf ib] obtain c where c: "cellAt (completeGrid w) gx gy = Inr c" by blast
  show ?thesis
  proof (cases "\<not> revealed c \<or> adjacentMines c = 0")
    case True
    then show ?thesis using c nb gx gy by (simp add: handleChordClick_def Let_def)
  next
    case False
    then have "chordable conf (completeGrid w) gx gy" using ib c by (simp add: chordable_def)
    then have "\<not> chordMatches conf (completeGrid w) gx gy" using no by simp
    then show ?thesis using c nb gx gy False chordScan_offsets[OF wf, of gx gy]
      by (simp add: handleChordClick_def Let_def chordMatches_def)
  qed
qed

lemma handleChordClick_run:
  assumes wf: "wf_grid conf (completeGrid w)"
    and gx: "gx = cx * CHUNK_SIZE conf + lx" and gy: "gy = cy * CHUNK_SIZE conf + ly"
    and ok: "chordable conf (completeGrid w) gx gy" "chordMatches conf (completeGrid w) gx gy"
  shows "handleChordClick conf depth cx cy lx ly w
           = chordLoop conf depth (chordCandidates conf (completeGrid w) gx gy) [] w"
proof -
  let ?g = "completeGrid w"
  have ib: "inBounds conf gx gy" using ok(1) by (simp add: chordable_def)
  have nb: "\<not> (gx < 0 \<or> gx \<ge> GRID_WIDTH conf \<or> gy < 0 \<or> gy \<ge> GRID_HEIGHT conf)"
    using ib by (auto simp: inBounds_def)
  from cellAt_wf_ex[OF wf ib] obtain c where c: "cellAt ?g gx gy = Inr c" by blast
  have rc: "revealed c" "adjacentMines c \<noteq> 0" using ok(1) c by (simp_all add: chordable_def)
  have mt: "int (length (chordFlagged conf ?g gx gy)) + int (length (chordRevealedMines conf ?g gx gy))
                 = adjacentMines c" using ok(2) c by (simp add: chordMatches_def)
  show ?thesis
    using c nb gx gy rc mt chordScan_offsets[OF wf, of gx gy]
    by (simp add: handleChordClick_def Let_def)
qed

text \<open>
  A chord on a revealed cell whose count is matched: it returns when the call stack holds
  one nested call for every cell it reveals, and when it returns it has revealed exactly
  what the candidates reveal.
\<close>

lemma handleChordClick_spec:
  assumes wf: "wf_grid conf (completeGrid w)" and S: "0 < CHUNK_SIZE conf"
    and gx: "gx = cx * CHUNK_SIZE conf + lx" and gy: "gy = cy * CHUNK_SIZE conf + ly"
    and ok: "chordable conf (completeGrid w) gx gy" "chordMatches conf (completeGrid w) gx gy"
  shows "(card (chordSetOf conf (completeGrid w) (chordCandidates conf (completeGrid w) gx gy)) \<le> depth \<longrightarrow>
            (\<exists>r. handleChordClick conf depth cx cy lx ly w = Inr r)) \<and>
         (\<forall>r. handleChordClick conf depth cx cy lx ly w = Inr r \<longrightarrow>
            revealOutcome conf (completeGrid w) w
              (chordSetOf conf (completeGrid w) (chordCandidates conf (completeGrid w) gx gy))
              (int (length (filter (\<lambda>(nx, ny). mineAt (completeGrid w) nx ny)
                              (chordCandidates conf (completeGrid w) gx gy))))
              (Inr r))"
proof -
  let ?g = "completeGrid w"
  have "(card ({} \<union> chordSetOf conf ?g (chordCandidates conf ?g gx gy)) \<le> depth \<longrightarrow>
           (\<exists>r. chordLoop conf depth (chordCandidates conf ?g gx gy) [] w = Inr r)) \<and>
        (\<forall>r. chordLoop conf depth (chordCandidates conf ?g gx gy) [] w = Inr r \<longrightarrow>
           revealOutcome conf ?g w ({} \<union> chordSetOf conf ?g (chordCandidates conf ?g gx gy))
             (int (length (filter (\<lambda>(nx, ny). mineAt ?g nx ny) (chordCandidates conf ?g gx gy)))) (Inr r))"
    by (rule chordLoop_spec[OF wf S revealsExactly_nothing[OF wf] closedUnder_empty
          chordCandidates_props distinct_chordCandidates]) simp
  then show ?thesis unfolding handleChordClick_run[OF wf gx gy ok] by simp
qed

text \<open>
  The only error of a chord is the exhausted call stack of a flood it starts.
\<close>

lemma chordLoop_error:
  assumes S: "0 < CHUNK_SIZE conf"
  shows "wf_grid conf (completeGrid w) \<Longrightarrow> (\<forall>(nx, ny) \<in> set cs. inBounds conf nx ny) \<Longrightarrow>
         chordLoop conf depth cs acc w \<noteq> Inl TypeError"
proof (induction cs arbitrary: acc w)
  case Nil
  then show ?case by simp
next
  case (Cons n cs)
  obtain nx ny where n: "n = (nx, ny)" by (cases n)
  let ?gc = "completeGrid w"
  have ib: "inBounds conf nx ny" and rest: "\<forall>(nx, ny) \<in> set cs. inBounds conf nx ny"
    using Cons.prems(2) n by auto
  from cellAt_wf_ex[OF Cons.prems(1) ib] obtain c where c: "cellAt ?gc nx ny = Inr c" by blast
  show ?case
  proof (cases "hasMine c")
    case True
    let ?c' = "c\<lparr>revealed := True\<rparr>"
    let ?w1 = "w\<lparr>completeGrid := setCell ?gc nx ny ?c', bombsExploded := bombsExploded w + 1\<rparr>"
    have "wf_grid conf (completeGrid ?w1)" using wf_grid_setCell[OF Cons.prems(1)] by simp
    from Cons.IH[OF this rest] show ?thesis using c n True by (simp add: Let_def)
  next
    case False
    show ?thesis
    proof (cases "revealCellWithFlood conf depth nx ny w")
      case (Inl e)
      then have "e \<noteq> TypeError" using revealCellWithFlood_error[OF Cons.prems(1) S ib, of depth] by auto
      then show ?thesis using c n False Inl by simp
    next
      case (Inr r)
      obtain fl w1 where r: "r = (fl, w1)" by (cases r)
      have "revealOutcome conf ?gc w (revealSet conf ?gc nx ny) 0 (Inr (fl, w1))"
        by (rule revealCellWithFlood_spec[OF Cons.prems(1) S ib Inr[unfolded r]])
      then have "revealsExactly conf ?gc (revealSet conf ?gc nx ny) fl (completeGrid w1)"
        by (simp add: revealOutcome_Inr)
      then have "wf_grid conf (completeGrid w1)" by (rule revealsExactly_wf)
      from Cons.IH[OF this rest] show ?thesis using c n False Inr r by simp
    qed
  qed
qed

lemma handleChordClick_error:
  assumes wf: "wf_grid conf (completeGrid w)" and S: "0 < CHUNK_SIZE conf"
  shows "handleChordClick conf depth cx cy lx ly w \<noteq> Inl TypeError"
proof (cases "chordable conf (completeGrid w) (cx * CHUNK_SIZE conf + lx) (cy * CHUNK_SIZE conf + ly) \<and>
              chordMatches conf (completeGrid w) (cx * CHUNK_SIZE conf + lx) (cy * CHUNK_SIZE conf + ly)")
  case True
  have "\<forall>(nx, ny) \<in> set (chordCandidates conf (completeGrid w)
            (cx * CHUNK_SIZE conf + lx) (cy * CHUNK_SIZE conf + ly)). inBounds conf nx ny"
    using chordCandidates_props by fastforce
  from chordLoop_error[OF S wf this] show ?thesis
    using handleChordClick_run[OF wf refl refl, of cx lx cy ly depth] True by simp
next
  case False
  then show ?thesis using handleChordClick_noop[OF wf refl refl, of cx lx cy ly depth] by auto
qed

lemma candidate_in_chordSetOf:
  assumes "(nx, ny) \<in> set cs" "inBounds conf nx ny" "\<not> flaggedIn g nx ny" "\<not> revealedIn g nx ny"
    and wf: "wf_grid conf g"
  shows "(nx, ny) \<in> chordSetOf conf g cs"
proof (cases "mineAt g nx ny")
  case True
  then show ?thesis using assms(1) by (auto simp: chordSetOf_def)
next
  case False
  from cellAt_wf_ex[OF wf assms(2)] obtain c where c: "cellAt g nx ny = Inr c" by blast
  have "floodable g nx ny" using c assms(3,4) False
    by (simp add: floodable_def flaggedIn_def revealedIn_def mineAt_def)
  then have "(nx, ny) \<in> revealSet conf g nx ny"
    using assms(2,3,4) by (simp add: revealSet_def floodReach.start)
  then show ?thesis using assms(1) False unfolding chordSetOf_def
    by (intro UnI2 UN_I[of "(nx, ny)"]) simp_all
qed

subsection \<open>The returned list\<close>

lemma revealOutcome_nothing:
  assumes "wf_grid conf (completeGrid w)"
  shows "revealOutcome conf (completeGrid w) w {} 0 (Inr ([], w))"
  using revealsExactly_nothing[OF assms] by (simp add: revealOutcome_Inr)

lemma handleChordClick_outcome:
  assumes wf: "wf_grid conf (completeGrid w)" and S: "0 < CHUNK_SIZE conf"
    and run: "handleChordClick conf depth cx cy lx ly w = Inr r"
  shows "\<exists>P b. revealOutcome conf (completeGrid w) w P b (Inr r)"
proof (cases "chordable conf (completeGrid w) (cx * CHUNK_SIZE conf + lx) (cy * CHUNK_SIZE conf + ly) \<and>
              chordMatches conf (completeGrid w) (cx * CHUNK_SIZE conf + lx) (cy * CHUNK_SIZE conf + ly)")
  case True
  then show ?thesis using handleChordClick_spec[OF wf S refl refl, of cx lx cy ly depth] run by blast
next
  case False
  then have "handleChordClick conf depth cx cy lx ly w = Inr ([], w)"
    using handleChordClick_noop[OF wf refl refl] by blast
  then have "r = ([], w)" using run by simp
  then show ?thesis using revealOutcome_nothing[OF wf] by metis
qed

lemma revealCell_outcome:
  assumes wf: "wf_grid conf (completeGrid w)" and S: "0 < CHUNK_SIZE conf"
    and run: "revealCell conf depth cx cy lx ly w = Inr r"
  shows "\<exists>P b. revealOutcome conf (completeGrid w) w P b (Inr r)"
  using revealCell_spec[OF wf S refl refl run] by blast


text \<open>
  Bounds for the number of nested calls that is enough: no reveal and no chord reveals more
  cells than the grid has.
\<close>

lemma card_revealSet_le:
  "card (revealSet conf g gx gy) \<le> nat (GRID_WIDTH conf) * nat (GRID_HEIGHT conf)"
proof -
  have "revealSet conf g gx gy \<subseteq> cells conf"
    using floodReach_inBounds by (auto simp: revealSet_def cells_def split: if_splits)
  from card_mono[OF finite_cells this] show ?thesis by (simp add: card_cells)
qed

lemma card_chordSetOf_le:
  "card (chordSetOf conf g (chordCandidates conf g gx gy)) \<le> nat (GRID_WIDTH conf) * nat (GRID_HEIGHT conf)"
proof -
  have "revealSet conf g nx ny \<subseteq> cells conf" for nx ny
    using floodReach_inBounds by (auto simp: revealSet_def cells_def split: if_splits)
  then have "chordSetOf conf g (chordCandidates conf g gx gy) \<subseteq> cells conf"
    using chordCandidates_props[of conf g gx gy]
    by (fastforce simp: chordSetOf_def cells_def split: if_splits)
  from card_mono[OF finite_cells this] show ?thesis by (simp add: card_cells)
qed


lemma wf_playedWorld: "wf_grid testConf (completeGrid playedWorld)"
  by code_simp

lemma test_reveal:
  "map_sum id (map (updatePos testConf) \<circ> fst) (revealCell testConf 8 0 0 0 0 testWorld)
     = Inr [(0, 0), (1, 0), (2, 0), (3, 0), (2, 1), (3, 1), (1, 1), (0, 1), (0, 2), (1, 2), (2, 2)]"
  by code_simp

lemma test_chord:
  "map_sum id (map (updatePos testConf) \<circ> fst) (handleChordClick testConf 5 1 1 0 0 playedWorld)
     = Inr [(1, 1), (1, 0), (2, 0), (3, 0), (2, 1), (3, 1), (0, 1), (0, 2), (1, 2)]"
  by code_simp


subsection \<open>Flags and chords\<close>

lemma flagCell_outside:
  assumes "\<not> inBounds conf (cx * CHUNK_SIZE conf + lx) (cy * CHUNK_SIZE conf + ly)"
  shows "flagCell conf cx cy lx ly w = Inr (None, w)"
  using assms by (auto simp: flagCell_def Let_def inBounds_def)

lemma flagCell_revealed:
  assumes "cellAt (completeGrid w) (cx * CHUNK_SIZE conf + lx) (cy * CHUNK_SIZE conf + ly) = Inr c"
    and "revealed c"
  shows "flagCell conf cx cy lx ly w = Inr (None, w)"
  using assms by (auto simp: flagCell_def Let_def)

lemma flagCell_toggle:
  assumes "inBounds conf gx gy" "cellAt (completeGrid w) gx gy = Inr c" "\<not> revealed c"
    and "gx = cx * CHUNK_SIZE conf + lx" "gy = cy * CHUNK_SIZE conf + ly"
  shows "flagCell conf cx cy lx ly w =
           Inr (Some \<lparr>u_cx = cx, u_cy = cy, u_x = lx, u_y = ly, u_cell = c\<lparr>flagged := \<not> flagged c\<rparr>\<rparr>,
                w\<lparr>completeGrid := setCell (completeGrid w) gx gy (c\<lparr>flagged := \<not> flagged c\<rparr>)\<rparr>)"
  using assms by (auto simp: flagCell_def Let_def inBounds_def)

lemma flagCell_outcome:
  assumes wf: "wf_grid conf (completeGrid w)"
  shows "\<exists>u w'. flagCell conf cx cy lx ly w = Inr (u, w') \<and> wf_grid conf (completeGrid w') \<and>
           (\<forall>gx gy. inBounds conf gx gy \<longrightarrow>
              revealedIn (completeGrid w') gx gy = revealedIn (completeGrid w) gx gy \<and>
              mineAt (completeGrid w') gx gy = mineAt (completeGrid w) gx gy)"
proof -
  let ?gx = "cx * CHUNK_SIZE conf + lx" and ?gy = "cy * CHUNK_SIZE conf + ly"
  show ?thesis
  proof (cases "inBounds conf ?gx ?gy")
    case False
    then show ?thesis using flagCell_outside wf by simp
  next
    case ib: True
    from cellAt_wf_ex[OF wf ib] obtain c where c: "cellAt (completeGrid w) ?gx ?gy = Inr c" by blast
    show ?thesis
    proof (cases "revealed c")
      case True
      then show ?thesis using flagCell_revealed[OF c] wf by simp
    next
      case False
      let ?c' = "c\<lparr>flagged := \<not> flagged c\<rparr>"
      let ?g' = "setCell (completeGrid w) ?gx ?gy ?c'"
      have "\<forall>gx gy. inBounds conf gx gy \<longrightarrow>
              revealedIn ?g' gx gy = revealedIn (completeGrid w) gx gy \<and>
              mineAt ?g' gx gy = mineAt (completeGrid w) gx gy"
        using cellAt_setCell[OF wf ib] c by (auto simp: revealedIn_def mineAt_def)
      then show ?thesis
        using flagCell_toggle[OF ib c False refl refl] wf_grid_setCell[OF wf] by simp
    qed
  qed
qed

lemma revealOutcome_monotone:
  assumes wf: "wf_grid conf (completeGrid w)"
    and o: "revealOutcome conf (completeGrid w) w P b (Inr (outs, w'))"
  shows "\<forall>gx gy. inBounds conf gx gy \<longrightarrow> revealedIn (completeGrid w) gx gy \<longrightarrow>
           revealedIn (completeGrid w') gx gy"
proof -
  from o have r: "revealsExactly conf (completeGrid w) P outs (completeGrid w')"
    by (simp add: revealOutcome_Inr)
  have "revealedIn (completeGrid w') gx gy"
    if "inBounds conf gx gy" "revealedIn (completeGrid w) gx gy" for gx gy
    using revealsExactly_keeps[OF wf r that(1)] that(2) by (auto simp: revealedIn_def)
  then show ?thesis by blast
qed

text \<open>
  Claim C9. A flag request on a revealed cell and a reveal request on a flagged cell return
  nothing and leave the whole state as it was; and a cell that is revealed is still revealed
  after every reveal request and every chord request that returns, with any call stack, and
  after every flag request.
\<close>

theorem flag_reveal_exclusion:
  assumes wf: "wf_grid conf (completeGrid w)" and S: "0 < CHUNK_SIZE conf"
    and gx: "gx = cx * CHUNK_SIZE conf + lx" and gy: "gy = cy * CHUNK_SIZE conf + ly"
  shows "(inBounds conf gx gy \<and> revealedIn (completeGrid w) gx gy \<longrightarrow>
            flagCell conf cx cy lx ly w = Inr (None, w)) \<and>
         (inBounds conf gx gy \<and> flaggedIn (completeGrid w) gx gy \<longrightarrow>
            revealCell conf depth cx cy lx ly w = Inr ([], w)) \<and>
         (\<forall>outs w'. revealCell conf depth cx cy lx ly w = Inr (outs, w') \<or>
                    handleChordClick conf depth cx cy lx ly w = Inr (outs, w') \<longrightarrow>
            (\<forall>x y. inBounds conf x y \<longrightarrow> revealedIn (completeGrid w) x y \<longrightarrow>
               revealedIn (completeGrid w') x y)) \<and>
         (\<exists>u w'. flagCell conf cx cy lx ly w = Inr (u, w') \<and>
            (\<forall>x y. inBounds conf x y \<longrightarrow> revealedIn (completeGrid w) x y \<longrightarrow>
               revealedIn (completeGrid w') x y))"
proof -
  have a: "flagCell conf cx cy lx ly w = Inr (None, w)"
    if "inBounds conf gx gy" "revealedIn (completeGrid w) gx gy"
  proof -
    from cellAt_wf_ex[OF wf that(1)] obtain c where c: "cellAt (completeGrid w) gx gy = Inr c" by blast
    then have "revealed c" using that(2) by (simp add: revealedIn_def)
    then show ?thesis using flagCell_revealed c gx gy by simp
  qed
  have b: "revealCell conf depth cx cy lx ly w = Inr ([], w)"
    if "inBounds conf gx gy" "flaggedIn (completeGrid w) gx gy"
  proof -
    from cellAt_wf_ex[OF wf that(1)] obtain c where c: "cellAt (completeGrid w) gx gy = Inr c" by blast
    then have "flagged c" using that(2) by (simp add: flaggedIn_def)
    then show ?thesis using revealCell_opened c gx gy by simp
  qed
  have c: "\<forall>x y. inBounds conf x y \<longrightarrow> revealedIn (completeGrid w) x y \<longrightarrow>
               revealedIn (completeGrid w') x y"
    if "revealCell conf depth cx cy lx ly w = Inr (outs, w') \<or>
        handleChordClick conf depth cx cy lx ly w = Inr (outs, w')" for outs w'
  proof -
    from that revealCell_outcome[OF wf S] handleChordClick_outcome[OF wf S]
    obtain P b where "revealOutcome conf (completeGrid w) w P b (Inr (outs, w'))" by blast
    then show ?thesis by (rule revealOutcome_monotone[OF wf])
  qed
  from flagCell_outcome[OF wf] obtain u w3 where
    r3: "flagCell conf cx cy lx ly w = Inr (u, w3)"
        "\<forall>gx gy. inBounds conf gx gy \<longrightarrow>
              revealedIn (completeGrid w3) gx gy = revealedIn (completeGrid w) gx gy \<and>
              mineAt (completeGrid w3) gx gy = mineAt (completeGrid w) gx gy" by blast
  have d: "\<exists>u w'. flagCell conf cx cy lx ly w = Inr (u, w') \<and>
            (\<forall>x y. inBounds conf x y \<longrightarrow> revealedIn (completeGrid w) x y \<longrightarrow>
               revealedIn (completeGrid w') x y)"
    using r3 by blast
  show ?thesis using a b c d by blast
qed

lemma playedWorld_cells:
  "inBounds testConf 2 2 \<and> revealedIn (completeGrid playedWorld) 2 2"
  "inBounds testConf 0 0 \<and> flaggedIn (completeGrid playedWorld) 0 0"
  by code_simp+

text \<open>
  In the played world the flag request on the revealed cell \<open>(2, 2)\<close> and the reveal request
  on the flagged cell \<open>(0, 0)\<close> change nothing, and the cell \<open>(2, 2)\<close> is still revealed after
  the chord on it.
\<close>

theorem flag_reveal_exclusion_witness:
  "flagCell testConf 1 1 0 0 playedWorld = Inr (None, playedWorld) \<and>
   revealCell testConf 8 0 0 0 0 playedWorld = Inr ([], playedWorld) \<and>
   (\<exists>outs w'. handleChordClick testConf 5 1 1 0 0 playedWorld = Inr (outs, w') \<and>
      revealedIn (completeGrid w') 2 2)"
proof -
  have S: "0 < CHUNK_SIZE testConf" by (simp add: testConf_def)
  have g1: "(2::int) = 1 * CHUNK_SIZE testConf + 0" by (simp add: testConf_def)
  have g0: "(0::int) = 0 * CHUNK_SIZE testConf + 0" by simp
  from flag_reveal_exclusion[OF wf_playedWorld S g1 g1] playedWorld_cells(1)
  have 1: "flagCell testConf 1 1 0 0 playedWorld = Inr (None, playedWorld)" by blast
  from flag_reveal_exclusion[OF wf_playedWorld S g0 g0] playedWorld_cells(2)
  have 2: "revealCell testConf 8 0 0 0 0 playedWorld = Inr ([], playedWorld)" by blast
  from test_chord obtain outs w' where
    r: "handleChordClick testConf 5 1 1 0 0 playedWorld = Inr (outs, w')"
    by (cases "handleChordClick testConf 5 1 1 0 0 playedWorld") auto
  from flag_reveal_exclusion[OF wf_playedWorld S g1 g1, of 5] r playedWorld_cells(1)
  have "revealedIn (completeGrid w') 2 2" by blast
  then show ?thesis using 1 2 r by blast
qed

text \<open>
  Claim C2, as the code has it. Let the target be in bounds. When it is revealed, has a
  count other than zero, and the number of its flagged neighbours plus the number of its
  unflagged revealed neighbours with a mine equals that count, \<^verbatim>\<open>handleChordClick\<close> returns
  if the call stack holds one nested call of \<^verbatim>\<open>flood\<close> for every cell the chord reveals, and
  whenever it returns it has revealed every candidate (the neighbours in bounds that are
  neither flagged nor revealed): a candidate with a mine alone, counted in
  \<^verbatim>\<open>bombsExploded\<close>; a candidate without a mine together with what the flood fill of
  \<^verbatim>\<open>revealCell\<close> reveals from it. Nothing else changes, and the list is not empty when there
  is a candidate. In every other case the list is empty and the state is the one before the
  call, with any call stack.
\<close>

theorem chord_reveal:
  assumes wf: "wf_grid conf (completeGrid w)" and S: "0 < CHUNK_SIZE conf"
    and gx: "gx = cx * CHUNK_SIZE conf + lx" and gy: "gy = cy * CHUNK_SIZE conf + ly"
    and g: "g = completeGrid w" and cands: "cands = chordCandidates conf g gx gy"
  shows "(chordable conf g gx gy \<and> chordMatches conf g gx gy \<longrightarrow>
           (card (chordSetOf conf g cands) \<le> depth \<longrightarrow>
              (\<exists>outs w'. handleChordClick conf depth cx cy lx ly w = Inr (outs, w'))) \<and>
           (\<forall>outs w'. handleChordClick conf depth cx cy lx ly w = Inr (outs, w') \<longrightarrow>
              distinct (map (updatePos conf) outs) \<and>
              set (map (updatePos conf) outs) = chordSetOf conf g cands \<and>
              (\<forall>x y. inBounds conf x y \<longrightarrow>
                 cellAt (completeGrid w') x y = markRevealed (chordSetOf conf g cands) g x y) \<and>
              (\<forall>(nx, ny) \<in> set cands. revealedIn (completeGrid w') nx ny) \<and>
              bombsExploded w' = bombsExploded w + int (length (filter (\<lambda>(nx, ny). mineAt g nx ny) cands)) \<and>
              gridChunks w' = gridChunks w \<and>
              (cands \<noteq> [] \<longrightarrow> outs \<noteq> []))) \<and>
         (\<not> (chordable conf g gx gy \<and> chordMatches conf g gx gy) \<longrightarrow>
            handleChordClick conf depth cx cy lx ly w = Inr ([], w))"
proof (intro conjI impI allI)
  assume ok: "chordable conf g gx gy \<and> chordMatches conf g gx gy"
    and d: "card (chordSetOf conf g cands) \<le> depth"
  from handleChordClick_spec[OF wf S gx gy] ok d g cands
  have "\<exists>r. handleChordClick conf depth cx cy lx ly w = Inr r" by simp
  then show "\<exists>outs w'. handleChordClick conf depth cx cy lx ly w = Inr (outs, w')" by auto
next
  fix outs w'
  assume ok: "chordable conf g gx gy \<and> chordMatches conf g gx gy"
    and run: "handleChordClick conf depth cx cy lx ly w = Inr (outs, w')"
  have "revealOutcome conf g w (chordSetOf conf g cands)
           (int (length (filter (\<lambda>(nx, ny). mineAt g nx ny) cands))) (Inr (outs, w'))"
    unfolding g cands using handleChordClick_spec[OF wf S gx gy] ok g run by simp
  then have
    r: "gridChunks w' = gridChunks w"
       "bombsExploded w' = bombsExploded w + int (length (filter (\<lambda>(nx, ny). mineAt g nx ny) cands))"
       "revealsExactly conf g (chordSetOf conf g cands) outs (completeGrid w')"
    by (simp_all add: revealOutcome_Inr)
  have wfg: "wf_grid conf g" using wf g by simp
  have in_set: "(nx, ny) \<in> chordSetOf conf g cands" if "(nx, ny) \<in> set cands" for nx ny
    using that chordCandidates_props[of conf g gx gy] cands
    by (intro candidate_in_chordSetOf[OF that _ _ _ wfg]) auto
  show "distinct (map (updatePos conf) outs)" using r(3) by (rule revealsExactly_distinct)
  show "set (map (updatePos conf) outs) = chordSetOf conf g cands" using r(3) by (rule revealsExactly_set)
  show "cellAt (completeGrid w') x y = markRevealed (chordSetOf conf g cands) g x y"
    if "inBounds conf x y" for x y using revealsExactly_cell[OF r(3) that] .
  show "\<forall>(nx, ny) \<in> set cands. revealedIn (completeGrid w') nx ny"
    using in_set revealsExactly_revealed[OF wfg r(3)] by auto
  show "bombsExploded w' = bombsExploded w + int (length (filter (\<lambda>(nx, ny). mineAt g nx ny) cands))"
    by (rule r(2))
  show "gridChunks w' = gridChunks w" by (rule r(1))
  show "outs \<noteq> []" if "cands \<noteq> []"
  proof -
    from that obtain nx ny where "(nx, ny) \<in> set cands" by (cases cands) auto
    then have "(nx, ny) \<in> set (map (updatePos conf) outs)"
      using in_set revealsExactly_set[OF r(3)] by simp
    then show "outs \<noteq> []" by auto
  qed
next
  assume "\<not> (chordable conf g gx gy \<and> chordMatches conf g gx gy)"
  then show "handleChordClick conf depth cx cy lx ly w = Inr ([], w)"
    using handleChordClick_noop[OF wf gx gy] g by blast
qed

lemma playedWorld_chord:
  "chordable testConf (completeGrid playedWorld) 2 2 \<and> chordMatches testConf (completeGrid playedWorld) 2 2"
  "\<not> chordable testConf (completeGrid playedWorld) 3 1"
  "chordCandidates testConf (completeGrid playedWorld) 2 2 = [(1, 1), (2, 1), (3, 1), (1, 2)]"
  "\<not> mineAt (completeGrid playedWorld) 1 1 \<and> \<not> mineAt (completeGrid playedWorld) 2 1 \<and>
   \<not> mineAt (completeGrid playedWorld) 3 1 \<and> \<not> mineAt (completeGrid playedWorld) 1 2"
  by code_simp+

text \<open>
  In the played world the count of \<open>(2, 2)\<close> is one and its neighbour \<open>(3, 2)\<close> is flagged:
  with a call stack of twelve nested calls the chord on \<open>(2, 2)\<close> returns; it reveals the
  four candidates and explodes nothing. The chord on the unrevealed cell \<open>(3, 1)\<close> does
  nothing.
\<close>

theorem chord_reveal_witness:
  "(\<exists>outs w'. handleChordClick testConf 12 1 1 0 0 playedWorld = Inr (outs, w') \<and>
      set (map (updatePos testConf) outs)
        = chordSetOf testConf (completeGrid playedWorld) [(1, 1), (2, 1), (3, 1), (1, 2)] \<and>
      revealedIn (completeGrid w') 1 1 \<and> revealedIn (completeGrid w') 2 1 \<and>
      revealedIn (completeGrid w') 3 1 \<and> revealedIn (completeGrid w') 1 2 \<and>
      bombsExploded w' = bombsExploded playedWorld \<and> outs \<noteq> []) \<and>
   handleChordClick testConf 12 1 0 1 1 playedWorld = Inr ([], playedWorld)"
proof -
  have S: "0 < CHUNK_SIZE testConf" by (simp add: testConf_def)
  have g2: "(2::int) = 1 * CHUNK_SIZE testConf + 0" by (simp add: testConf_def)
  have g3: "(3::int) = 1 * CHUNK_SIZE testConf + 1" by (simp add: testConf_def)
  have g1: "(1::int) = 0 * CHUNK_SIZE testConf + 1" by (simp add: testConf_def)
  have "card (chordSetOf testConf (completeGrid playedWorld)
                (chordCandidates testConf (completeGrid playedWorld) 2 2))
          \<le> nat (GRID_WIDTH testConf) * nat (GRID_HEIGHT testConf)"
    by (rule card_chordSetOf_le)
  then have d: "card (chordSetOf testConf (completeGrid playedWorld)
                (chordCandidates testConf (completeGrid playedWorld) 2 2)) \<le> 12"
    by (simp add: testConf_def)
  note t = chord_reveal[OF wf_playedWorld S g2 g2 refl refl, of 12]
  from t playedWorld_chord(1) d obtain outs w' where
    r0: "handleChordClick testConf 12 1 1 0 0 playedWorld = Inr (outs, w')" by blast
  from t playedWorld_chord(1) r0 have
    r: "set (map (updatePos testConf) outs)
          = chordSetOf testConf (completeGrid playedWorld) (chordCandidates testConf (completeGrid playedWorld) 2 2)"
       "\<forall>(nx, ny) \<in> set (chordCandidates testConf (completeGrid playedWorld) 2 2).
           revealedIn (completeGrid w') nx ny"
       "bombsExploded w' = bombsExploded playedWorld +
           int (length (filter (\<lambda>(nx, ny). mineAt (completeGrid playedWorld) nx ny)
                  (chordCandidates testConf (completeGrid playedWorld) 2 2)))"
       "chordCandidates testConf (completeGrid playedWorld) 2 2 \<noteq> [] \<longrightarrow> outs \<noteq> []"
    by blast+
  from chord_reveal[OF wf_playedWorld S g3 g1 refl refl] playedWorld_chord(2)
  have n: "handleChordClick testConf 12 1 0 1 1 playedWorld = Inr ([], playedWorld)" by blast
  show ?thesis using r0 r n unfolding playedWorld_chord(3) using playedWorld_chord(4) by auto
qed

text \<open>
  Claim C2 as stated fails: \<^verbatim>\<open>flood\<close> is a recursive closure and nothing bounds its depth.
  In the played world the count of \<open>(2, 2)\<close> is matched, and with a call stack of four nested
  calls the chord raises \<^verbatim>\<open>RangeError\<close> in the flood from the candidate \<open>(1, 1)\<close> and
  returns no list.
\<close>

theorem chord_stack_exhausted:
  "chordable testConf (completeGrid playedWorld) 2 2 \<and>
   chordMatches testConf (completeGrid playedWorld) 2 2 \<and>
   handleChordClick testConf 4 1 1 0 0 playedWorld = Inl RangeError"
proof -
  have "map_sum id fst (handleChordClick testConf 4 1 1 0 0 playedWorld) = Inl RangeError"
    by code_simp
  then have "handleChordClick testConf 4 1 1 0 0 playedWorld = Inl RangeError"
    by (cases "handleChordClick testConf 4 1 1 0 0 playedWorld") auto
  then show ?thesis using playedWorld_chord(1) by simp
qed

subsection \<open>Mines, counts and the flood over a region\<close>

lemma countLoop_length:
  assumes wf: "wf_grid conf g"
  shows "countLoop conf g gx gy ds k =
     Inr (k + int (length (filter (\<lambda>(dx, dy). inBounds conf (gx + dx) (gy + dy) \<and> mineAt g (gx + dx) (gy + dy)) ds)))"
proof (induction ds arbitrary: k)
  case Nil
  then show ?case by simp
next
  case (Cons d ds)
  obtain dx dy where d: "d = (dx, dy)" by (cases d)
  show ?case
  proof (cases "inBounds conf (gx + dx) (gy + dy)")
    case True
    from cellAt_wf_ex[OF wf True] obtain c where c: "cellAt g (gx + dx) (gy + dy) = Inr c" by blast
    then show ?thesis using True Cons.IH d by (simp add: Let_def mineAt_def)
  next
    case False
    then show ?thesis using Cons.IH d by (simp add: Let_def)
  qed
qed

lemma mineNeighbours_image:
  "mineNeighbours conf g gx gy =
     (\<lambda>(dx, dy). (gx + dx, gy + dy)) `
       set (filter (\<lambda>(dx, dy). inBounds conf (gx + dx) (gy + dy) \<and> mineAt g (gx + dx) (gy + dy)) offsets)"
  (is "?L = ?f ` ?R")
proof (intro equalityI subsetI)
  fix p assume p: "p \<in> ?L"
  obtain nx ny where n: "p = (nx, ny)" by (cases p)
  have "(nx - gx, ny - gy) \<in> set offsets" "inBounds conf nx ny" "mineAt g nx ny"
    using p n by (simp_all add: mineNeighbours_def)
  then have "(nx - gx, ny - gy) \<in> ?R" by simp
  then have "?f (nx - gx, ny - gy) \<in> ?f ` ?R" by (rule imageI)
  then show "p \<in> ?f ` ?R" using n by simp
next
  fix p assume "p \<in> ?f ` ?R"
  then obtain d where d: "d \<in> ?R" "p = ?f d" by blast
  obtain dx dy where dd: "d = (dx, dy)" by (cases d)
  show "p \<in> ?L" using d dd by (simp add: mineNeighbours_def)
qed

lemma card_mineNeighbours:
  "card (mineNeighbours conf g gx gy) =
     length (filter (\<lambda>(dx, dy). inBounds conf (gx + dx) (gy + dy) \<and> mineAt g (gx + dx) (gy + dy)) offsets)"
proof -
  have inj: "inj_on (\<lambda>(dx, dy). (gx + dx, gy + dy)) A" for A :: "(int \<times> int) set"
    by (auto simp: inj_on_def)
  have "distinct offsets" by (simp add: offsets_def)
  then have "distinct (filter (\<lambda>(dx, dy). inBounds conf (gx + dx) (gy + dy) \<and> mineAt g (gx + dx) (gy + dy)) offsets)"
    by simp
  then show ?thesis unfolding mineNeighbours_image card_image[OF inj] by (rule distinct_card)
qed

lemma count_refines:
  assumes "wf_grid conf g"
  shows "countAdjacentMinesInCompleteGrid conf g gx gy = Inr (int (card (mineNeighbours conf g gx gy)))"
  unfolding countAdjacentMinesInCompleteGrid_def countLoop_length[OF assms] card_mineNeighbours by simp

lemma mineNeighbours_cong:
  assumes "\<And>nx ny. inBounds conf nx ny \<Longrightarrow> mineAt g' nx ny = mineAt g nx ny"
  shows "mineNeighbours conf g' gx gy = mineNeighbours conf g gx gy"
  using assms by (auto simp: mineNeighbours_def)

lemma calcLoop_spec:
  shows "wf_grid conf g \<Longrightarrow> \<forall>(px, py) \<in> set ps. inBounds conf px py \<Longrightarrow>
    \<exists>g'. calcLoop conf ps g = Inr g' \<and> wf_grid conf g' \<and>
      (\<forall>gx gy. inBounds conf gx gy \<longrightarrow>
         (\<exists>c. cellAt g gx gy = Inr c \<and>
              cellAt g' gx gy = Inr (if (gx, gy) \<in> set ps
                                     then c\<lparr>adjacentMines := int (card (mineNeighbours conf g gx gy))\<rparr>
                                     else c)))"
proof (induction ps arbitrary: g)
  case Nil
  then show ?case using cellAt_wf_ex by simp
next
  case (Cons p ps)
  obtain px py where p: "p = (px, py)" by (cases p)
  have ib: "inBounds conf px py" and rest: "\<forall>(px, py) \<in> set ps. inBounds conf px py"
    using Cons.prems(2) p by auto
  from cellAt_wf_ex[OF Cons.prems(1) ib] obtain c0 where c0: "cellAt g px py = Inr c0" by blast
  let ?k = "int (card (mineNeighbours conf g px py))"
  let ?g1 = "setCell g px py (c0\<lparr>adjacentMines := ?k\<rparr>)"
  have wf1: "wf_grid conf ?g1" by (rule wf_grid_setCell[OF Cons.prems(1)])
  have c1: "\<And>x y. inBounds conf x y \<Longrightarrow> cellAt ?g1 x y =
      (if x = px \<and> y = py then Inr (c0\<lparr>adjacentMines := ?k\<rparr>) else cellAt g x y)"
    by (rule cellAt_setCell[OF Cons.prems(1) ib])
  have "\<And>nx ny. inBounds conf nx ny \<Longrightarrow> mineAt ?g1 nx ny = mineAt g nx ny"
    using c1 c0 by (auto simp: mineAt_def)
  then have mn: "\<And>x y. mineNeighbours conf ?g1 x y = mineNeighbours conf g x y"
    by (rule mineNeighbours_cong)
  from Cons.IH[OF wf1 rest] obtain g' where
    g': "calcLoop conf ps ?g1 = Inr g'" "wf_grid conf g'"
        "\<And>gx gy. inBounds conf gx gy \<Longrightarrow>
         (\<exists>c. cellAt ?g1 gx gy = Inr c \<and>
              cellAt g' gx gy = Inr (if (gx, gy) \<in> set ps
                                     then c\<lparr>adjacentMines := int (card (mineNeighbours conf ?g1 gx gy))\<rparr>
                                     else c))" by blast
  have run: "calcLoop conf (p # ps) g = Inr g'"
    using p c0 count_refines[OF Cons.prems(1)] g'(1) by simp
  have "\<exists>c. cellAt g gx gy = Inr c \<and>
              cellAt g' gx gy = Inr (if (gx, gy) \<in> set (p # ps)
                                     then c\<lparr>adjacentMines := int (card (mineNeighbours conf g gx gy))\<rparr>
                                     else c)" if xy: "inBounds conf gx gy" for gx gy
  proof -
    from cellAt_wf_ex[OF Cons.prems(1) xy] obtain c where c: "cellAt g gx gy = Inr c" by blast
    from g'(3)[OF xy] show ?thesis using c1[OF xy] c c0 p unfolding mn by (auto split: if_splits)
  qed
  then show ?case using run g'(2) by blast
qed

lemma allPositions_complete: "inBounds conf gx gy \<Longrightarrow> (gx, gy) \<in> set (allPositions conf)"
  by (auto simp: allPositions_def inBounds_def image_iff)

lemma calculate_adjInv:
  assumes wf: "wf_grid conf g"
  shows "\<exists>g'. calculateAdjacentCountsForCompleteGrid conf g = Inr g' \<and> wf_grid conf g' \<and> adjInv conf g' \<and>
           (\<forall>gx gy. inBounds conf gx gy \<longrightarrow> mineAt g' gx gy = mineAt g gx gy)"
proof -
  have "\<forall>(px, py) \<in> set (allPositions conf). inBounds conf px py"
    using allPositions_inBounds by auto
  from calcLoop_spec[OF wf this] obtain g' where
    g': "calcLoop conf (allPositions conf) g = Inr g'" "wf_grid conf g'"
        "\<And>gx gy. inBounds conf gx gy \<Longrightarrow>
         (\<exists>c. cellAt g gx gy = Inr c \<and>
              cellAt g' gx gy = Inr (if (gx, gy) \<in> set (allPositions conf)
                                     then c\<lparr>adjacentMines := int (card (mineNeighbours conf g gx gy))\<rparr>
                                     else c))" by blast
  have m: "mineAt g' gx gy = mineAt g gx gy" if "inBounds conf gx gy" for gx gy
  proof -
    from g'(3)[OF that] obtain c where "cellAt g gx gy = Inr c"
      "cellAt g' gx gy = Inr (if (gx, gy) \<in> set (allPositions conf)
                                     then c\<lparr>adjacentMines := int (card (mineNeighbours conf g gx gy))\<rparr>
                                     else c)" by blast
    then show ?thesis by (simp add: mineAt_def)
  qed
  then have mn: "\<And>x y. mineNeighbours conf g' x y = mineNeighbours conf g x y"
    by (rule mineNeighbours_cong)
  have "adjInv conf g'"
    unfolding adjInv_def mn
  proof (intro allI impI)
    fix gx gy assume ib: "inBounds conf gx gy"
    from g'(3)[OF ib] allPositions_complete[OF ib] obtain c where
      "cellAt g' gx gy = Inr (c\<lparr>adjacentMines := int (card (mineNeighbours conf g gx gy))\<rparr>)"
      by auto
    then show "case cellAt g' gx gy of Inl e \<Rightarrow> False
               | Inr c \<Rightarrow> adjacentMines c = int (card (mineNeighbours conf g gx gy))" by simp
  qed
  then show ?thesis using g'(1,2) m by (auto simp: calculateAdjacentCountsForCompleteGrid_def)
qed

lemma placeMinesLoop_wf:
  "placeMinesLoop g placed n draws = Some (Inr g') \<Longrightarrow> wf_grid conf g \<Longrightarrow> wf_grid conf g'"
proof (induction draws arbitrary: g placed)
  case Nil
  then show ?case by (simp split: if_splits)
next
  case (Cons p draws)
  obtain gx gy where p: "p = (gx, gy)" by (cases p)
  show ?case
    using Cons.prems Cons.IH wf_grid_setCell[OF Cons.prems(2)] p
    by (auto split: if_splits sum.splits)
qed

lemma initialize_adjInv:
  assumes "initializeCompleteGrid conf draws = Some (Inr g)"
  shows "wf_grid conf g \<and> adjInv conf g"
proof -
  from assms obtain g0 where
    g0: "placeMinesInCompleteGrid conf draws (emptyGrid conf) = Some (Inr g0)"
        "calculateAdjacentCountsForCompleteGrid conf g0 = Inr g"
    by (auto simp: initializeCompleteGrid_def split: option.splits sum.splits)
  have "wf_grid conf g0"
    using placeMinesLoop_wf[OF g0(1)[unfolded placeMinesInCompleteGrid_def] wf_emptyGrid] .
  from calculate_adjInv[OF this] g0(2) show ?thesis by auto
qed

lemma filter_update_count:
  "j < length xs \<Longrightarrow>
     length (filter P (xs[j := v])) + (if P (xs ! j) then 1 else 0)
       = length (filter P xs) + (if P v then 1 else 0)"
proof (induction xs arbitrary: j)
  case Nil
  then show ?case by simp
next
  case (Cons x xs)
  then show ?case by (cases j) auto
qed

lemma concat_update_count:
  "i < length xss \<Longrightarrow>
     length (filter P (concat (xss[i := row]))) + length (filter P (xss ! i))
       = length (filter P (concat xss)) + length (filter P row)"
proof (induction xss arbitrary: i)
  case Nil
  then show ?case by simp
next
  case (Cons xs xss)
  then show ?case by (cases i) auto
qed

lemma cellAt_index:
  assumes "cellAt g gx gy = Inr c"
  shows "nat gy < length g \<and> nat gx < length (g ! nat gy) \<and> g ! nat gy ! nat gx = c"
  using assms by (auto simp: cellAt_def js_nth_def split: option.splits if_splits)

lemma totalMines_setCell:
  assumes "cellAt g gx gy = Inr c"
  shows "totalMines (setCell g gx gy c') + (if hasMine c then 1 else 0)
           = totalMines g + (if hasMine c' then 1 else 0)"
proof -
  from cellAt_index[OF assms] have i: "nat gy < length g" "nat gx < length (g ! nat gy)"
    "g ! nat gy ! nat gx = c" by simp_all
  from filter_update_count[OF i(2), of hasMine c'] i(3)
  have 1: "length (filter hasMine ((g ! nat gy)[nat gx := c'])) + (if hasMine c then 1 else 0)
             = length (filter hasMine (g ! nat gy)) + (if hasMine c' then 1 else 0)" by simp
  from concat_update_count[OF i(1), of hasMine "(g ! nat gy)[nat gx := c']"]
  have 2: "length (filter hasMine (concat (g[nat gy := (g ! nat gy)[nat gx := c']])))
              + length (filter hasMine (g ! nat gy))
           = length (filter hasMine (concat g)) + length (filter hasMine ((g ! nat gy)[nat gx := c']))" .
  show ?thesis unfolding totalMines_def setCell_def using 1 2 by (auto split: if_splits)
qed

lemma placeMinesLoop_count:
  "placeMinesLoop g placed (Num (of_int n)) draws = Some (Inr g') \<Longrightarrow> placed \<le> n \<Longrightarrow>
     int (totalMines g') = int (totalMines g) + (n - placed)"
proof (induction draws arbitrary: g placed)
  case Nil
  then show ?case by (simp add: js_less_int split: if_splits)
next
  case (Cons p draws)
  obtain gx gy where p: "p = (gx, gy)" by (cases p)
  show ?case
  proof (cases "placed < n")
    case False
    then show ?thesis using Cons.prems p by (simp add: js_less_int)
  next
    case True
    then obtain c where c: "cellAt g gx gy = Inr c"
      using Cons.prems(1) p by (auto simp: js_less_int split: sum.splits)
    show ?thesis
    proof (cases "hasMine c")
      case True
      then have "placeMinesLoop g placed (Num (of_int n)) draws = Some (Inr g')"
        using Cons.prems(1) p c \<open>placed < n\<close> by (simp add: js_less_int)
      from Cons.IH[OF this Cons.prems(2)] show ?thesis .
    next
      case False
      then have run: "placeMinesLoop (setCell g gx gy (c\<lparr>hasMine := True\<rparr>)) (placed + 1)
                        (Num (of_int n)) draws = Some (Inr g')"
        using Cons.prems(1) p c \<open>placed < n\<close> by (simp add: js_less_int)
      have "placed + 1 \<le> n" using \<open>placed < n\<close> by simp
      from Cons.IH[OF run this] totalMines_setCell[OF c, of "c\<lparr>hasMine := True\<rparr>"] False
      show ?thesis by simp
    qed
  qed
qed

lemma placeMinesLoop_PosInfinity:
  "placeMinesLoop g placed PosInfinity draws \<noteq> Some (Inr g')"
proof (induction draws arbitrary: g placed)
  case Nil
  then show ?case by (simp add: js_less_PosInfinity)
next
  case (Cons p draws)
  obtain gx gy where p: "p = (gx, gy)" by (cases p)
  show ?case using Cons.IH p by (simp add: js_less_PosInfinity split: sum.splits)
qed

lemma calcLoop_totalMines:
  "calcLoop conf ps g = Inr g' \<Longrightarrow> totalMines g' = totalMines g"
proof (induction ps arbitrary: g)
  case Nil
  then show ?case by simp
next
  case (Cons p ps)
  obtain gx gy where p: "p = (gx, gy)" by (cases p)
  from Cons.prems p obtain c k where
    c: "cellAt g gx gy = Inr c" "calcLoop conf ps (setCell g gx gy (c\<lparr>adjacentMines := k\<rparr>)) = Inr g'"
    by (auto split: sum.splits)
  from Cons.IH[OF c(2)] totalMines_setCell[OF c(1), of "c\<lparr>adjacentMines := k\<rparr>"]
  show ?case by (auto split: if_splits)
qed

lemma totalMines_emptyGrid: "totalMines (emptyGrid conf) = 0"
  by (auto simp: totalMines_def emptyGrid_def newCell_def filter_empty_conv)

lemma totalMines_le:
  assumes "wf_grid conf g"
  shows "totalMines g \<le> nat (GRID_WIDTH conf) * nat (GRID_HEIGHT conf)"
proof -
  have "length (concat g) = sum_list (map length g)" by (simp add: length_concat)
  also have "map length g = map (\<lambda>row. nat (GRID_WIDTH conf)) g"
    using assms by (simp add: wf_grid_def)
  also have "sum_list (map (\<lambda>row. nat (GRID_WIDTH conf)) g) = length g * nat (GRID_WIDTH conf)"
    by (simp add: sum_list_triv)
  finally have "length (concat g) = nat (GRID_WIDTH conf) * nat (GRID_HEIGHT conf)"
    using assms by (simp add: wf_grid_def)
  moreover have "totalMines g \<le> length (concat g)" by (simp add: totalMines_def)
  ultimately show ?thesis by simp
qed

text \<open>
  For a number of cells that a double holds exactly and a percentage that is not negative
  the number of mines computed is an integer that is not negative, or plus infinity.
\<close>

lemma mineCount_valid:
  assumes "0 \<le> GRID_WIDTH conf * GRID_HEIGHT conf" "GRID_WIDTH conf * GRID_HEIGHT conf \<le> 2 ^ 53"
    and "MINE_PERCENTAGE conf = Num p" "0 \<le> p"
  shows "mineCount conf = PosInfinity \<or> (\<exists>k. 0 \<le> k \<and> mineCount conf = Num (of_int k))"
proof -
  define n where "n = GRID_WIDTH conf * GRID_HEIGHT conf"
  have "js_times (Num (of_int (GRID_WIDTH conf))) (Num (of_int (GRID_HEIGHT conf))) = fl (of_int n)"
    by (simp add: js_times_Num n_def)
  also have "\<dots> = Num (of_int n)" using assms(1,2) unfolding n_def by (rule fl_of_int)
  finally have m: "mineCount conf = Math_round (fl (of_int n * p))"
    using assms(3) by (simp add: mineCount_def js_times_Num)
  have "0 \<le> rat_of_int n" using assms(1) unfolding n_def by (simp only: of_int_0_le_iff)
  then have "0 \<le> rat_of_int n * p" using assms(4) by (rule mult_nonneg_nonneg)
  from fl_nonneg[OF this] show ?thesis
  proof
    assume "fl (rat_of_int n * p) = PosInfinity"
    then show ?thesis using m by (simp add: Math_round_def)
  next
    assume "\<exists>r. fl (rat_of_int n * p) = Num r \<and> 0 \<le> r"
    then obtain r where r: "fl (rat_of_int n * p) = Num r" "0 \<le> r" by blast
    have "0 \<le> \<lfloor>r + 1 / 2\<rfloor>" using r(2) by simp
    then show ?thesis using m r(1) by (auto simp: Math_round_Num)
  qed
qed

lemma initialize_totalMines:
  assumes "initializeCompleteGrid conf draws = Some (Inr g)" "mineCount conf = Num (of_int k)" "0 \<le> k"
  shows "int (totalMines g) = k"
proof -
  from assms(1) obtain g0 where
    g0: "placeMinesInCompleteGrid conf draws (emptyGrid conf) = Some (Inr g0)"
        "calculateAdjacentCountsForCompleteGrid conf g0 = Inr g"
    by (auto simp: initializeCompleteGrid_def split: option.splits sum.splits)
  from placeMinesLoop_count[OF g0(1)[unfolded placeMinesInCompleteGrid_def assms(2)] assms(3)]
  have "int (totalMines g0) = k" by (simp add: totalMines_emptyGrid)
  then show ?thesis
    using calcLoop_totalMines[OF g0(2)[unfolded calculateAdjacentCountsForCompleteGrid_def]] by simp
qed

lemma initialize_not_PosInfinity:
  assumes "initializeCompleteGrid conf draws = Some (Inr g)"
  shows "mineCount conf \<noteq> PosInfinity"
proof
  assume inf: "mineCount conf = PosInfinity"
  from assms obtain g0 where
    "placeMinesInCompleteGrid conf draws (emptyGrid conf) = Some (Inr g0)"
    by (auto simp: initializeCompleteGrid_def split: option.splits sum.splits)
  then show False using placeMinesLoop_PosInfinity by (simp add: placeMinesInCompleteGrid_def inf)
qed

lemma placeMinesLoop_returns:
  "wf_grid conf g \<Longrightarrow> \<forall>(gx, gy) \<in> set draws. inBounds conf gx gy \<Longrightarrow>
   n - placed \<le> int (card {p \<in> set draws. \<not> mineAt g (fst p) (snd p)}) \<Longrightarrow>
   \<exists>g'. placeMinesLoop g placed (Num (of_int n)) draws = Some (Inr g')"
proof (induction draws arbitrary: g placed)
  case Nil
  then show ?case by (simp add: js_less_int)
next
  case (Cons p draws)
  obtain gx gy where p: "p = (gx, gy)" by (cases p)
  have ib: "inBounds conf gx gy" and rest: "\<forall>(gx, gy) \<in> set draws. inBounds conf gx gy"
    using Cons.prems(2) p by auto
  show ?case
  proof (cases "placed < n")
    case False
    then show ?thesis using p by (simp add: js_less_int)
  next
    case True
    from cellAt_wf_ex[OF Cons.prems(1) ib] obtain c where c: "cellAt g gx gy = Inr c" by blast
    let ?A = "{q \<in> set draws. \<not> mineAt g (fst q) (snd q)}"
    show ?thesis
    proof (cases "hasMine c")
      case True
      then have "{q \<in> set (p # draws). \<not> mineAt g (fst q) (snd q)} = ?A"
        using c p by (auto simp: mineAt_def)
      then have "n - placed \<le> int (card ?A)" using Cons.prems(3) by simp
      from Cons.IH[OF Cons.prems(1) rest this] show ?thesis using p c True \<open>placed < n\<close>
        by (simp add: js_less_int)
    next
      case False
      let ?g1 = "setCell g gx gy (c\<lparr>hasMine := True\<rparr>)"
      have wf1: "wf_grid conf ?g1" by (rule wf_grid_setCell[OF Cons.prems(1)])
      have m1: "mineAt ?g1 x y \<longleftrightarrow> mineAt g x y \<or> (x = gx \<and> y = gy)" if "inBounds conf x y" for x y
        using cellAt_setCell[OF Cons.prems(1) ib that] by (auto simp: mineAt_def)
      have "{q \<in> set draws. \<not> mineAt ?g1 (fst q) (snd q)} = ?A - {p}"
        using m1 rest p by (auto simp: prod_eq_iff)
      moreover have "{q \<in> set (p # draws). \<not> mineAt g (fst q) (snd q)} = insert p ?A"
        using c p False by (auto simp: mineAt_def)
      moreover have "card (insert p ?A) \<le> card (?A - {p}) + 1"
      proof -
        have fin: "finite (?A - {p})" by simp
        have "p \<notin> ?A - {p}" by simp
        from card_insert_disjoint[OF fin this] have "card (insert p (?A - {p})) = Suc (card (?A - {p}))" .
        moreover have "insert p (?A - {p}) = insert p ?A" by blast
        ultimately show ?thesis by simp
      qed
      ultimately have "n - (placed + 1) \<le> int (card {q \<in> set draws. \<not> mineAt ?g1 (fst q) (snd q)})"
        using Cons.prems(3) by simp
      from Cons.IH[OF wf1 rest this] show ?thesis using p c False \<open>placed < n\<close>
        by (simp add: js_less_int)
    qed
  qed
qed

lemma initialize_returns:
  assumes "\<forall>(gx, gy) \<in> set draws. inBounds conf gx gy"
    and "mineCount conf = Num (of_int k)" "k \<le> int (card (set draws))"
  shows "\<exists>g. initializeCompleteGrid conf draws = Some (Inr g)"
proof -
  have "\<not> mineAt (emptyGrid conf) (fst p) (snd p)" if "p \<in> set draws" for p
  proof -
    have "inBounds conf (fst p) (snd p)" using assms(1) that by (cases p) auto
    from cellAt_emptyGrid[OF this] show ?thesis by (simp add: mineAt_def newCell_def)
  qed
  then have "{p \<in> set draws. \<not> mineAt (emptyGrid conf) (fst p) (snd p)} = set draws" by blast
  then have "k - 0 \<le> int (card {p \<in> set draws. \<not> mineAt (emptyGrid conf) (fst p) (snd p)})"
    using assms(3) by simp
  from placeMinesLoop_returns[OF wf_emptyGrid assms(1) this] obtain g0 where
    g0: "placeMinesLoop (emptyGrid conf) 0 (mineCount conf) draws = Some (Inr g0)"
    unfolding assms(2) by blast
  have "wf_grid conf g0" by (rule placeMinesLoop_wf[OF g0 wf_emptyGrid])
  from calculate_adjInv[OF this] obtain g where
    "calculateAdjacentCountsForCompleteGrid conf g0 = Inr g" by blast
  then show ?thesis using g0 by (simp add: initializeCompleteGrid_def placeMinesInCompleteGrid_def)
qed

lemma finite_mineNeighbours: "finite (mineNeighbours conf g gx gy)"
  unfolding mineNeighbours_image by simp

lemma adjInv_zero_no_mine:
  assumes adj: "adjInv conf g" and ib: "inBounds conf gx gy" and z: "zeroCell g gx gy"
    and off: "(dx, dy) \<in> set offsets" and nb: "inBounds conf (gx + dx) (gy + dy)"
  shows "\<not> mineAt g (gx + dx) (gy + dy)"
proof
  assume "mineAt g (gx + dx) (gy + dy)"
  then have "(gx + dx, gy + dy) \<in> mineNeighbours conf g gx gy"
    using off nb by (simp add: mineNeighbours_def)
  then have "card (mineNeighbours conf g gx gy) \<noteq> 0"
    using finite_mineNeighbours[of conf g gx gy] by auto
  moreover have "int (card (mineNeighbours conf g gx gy)) = 0"
    using adj[unfolded adjInv_def, rule_format, OF ib] z by (auto simp: zeroCell_def split: sum.splits)
  ultimately show False by simp
qed

lemma adjInv_cong:
  assumes adj: "adjInv conf g" and wf: "wf_grid conf g"
    and same: "\<And>gx gy c. inBounds conf gx gy \<Longrightarrow> cellAt g gx gy = Inr c \<Longrightarrow>
                 \<exists>c'. cellAt g' gx gy = Inr c' \<and> hasMine c' = hasMine c \<and> adjacentMines c' = adjacentMines c"
  shows "adjInv conf g'"
proof -
  have m: "mineAt g' gx gy = mineAt g gx gy" if "inBounds conf gx gy" for gx gy
  proof -
    from cellAt_wf_ex[OF wf that] obtain c where c: "cellAt g gx gy = Inr c" by blast
    from same[OF that c] c show ?thesis by (auto simp: mineAt_def)
  qed
  then have mn: "\<And>x y. mineNeighbours conf g' x y = mineNeighbours conf g x y"
    by (rule mineNeighbours_cong)
  show ?thesis unfolding adjInv_def mn
  proof (intro allI impI)
    fix gx gy assume ib: "inBounds conf gx gy"
    from cellAt_wf_ex[OF wf ib] obtain c where c: "cellAt g gx gy = Inr c" by blast
    from same[OF ib c] obtain c' where
      c': "cellAt g' gx gy = Inr c'" "adjacentMines c' = adjacentMines c" by blast
    have "adjacentMines c = int (card (mineNeighbours conf g gx gy))"
      using adj[unfolded adjInv_def, rule_format, OF ib] c by simp
    then show "case cellAt g' gx gy of Inl e \<Rightarrow> False
               | Inr c \<Rightarrow> adjacentMines c = int (card (mineNeighbours conf g gx gy))"
      using c' by simp
  qed
qed

lemma adjInv_revealsExactly:
  assumes wf: "wf_grid conf g" and adj: "adjInv conf g" and r: "revealsExactly conf g P outs g'"
  shows "adjInv conf g'"
proof (rule adjInv_cong[OF adj wf])
  fix gx gy c assume ib: "inBounds conf gx gy" and c: "cellAt g gx gy = Inr c"
  from revealsExactly_keeps[OF wf r ib] c
  show "\<exists>c'. cellAt g' gx gy = Inr c' \<and> hasMine c' = hasMine c \<and> adjacentMines c' = adjacentMines c"
    by auto
qed

lemma adjInv_revealOutcome:
  assumes wf: "wf_grid conf (completeGrid w)" and adj: "adjInv conf (completeGrid w)"
    and o: "revealOutcome conf (completeGrid w) w P b res"
  shows "\<exists>outs w'. res = Inr (outs, w') \<and> wf_grid conf (completeGrid w') \<and> adjInv conf (completeGrid w') \<and>
           (\<forall>gx gy. inBounds conf gx gy \<longrightarrow> mineAt (completeGrid w') gx gy = mineAt (completeGrid w) gx gy)"
proof -
  from o obtain outs w' where
    r: "res = Inr (outs, w')" "revealsExactly conf (completeGrid w) P outs (completeGrid w')"
    by (rule revealOutcomeE)
  have "mineAt (completeGrid w') gx gy = mineAt (completeGrid w) gx gy" if "inBounds conf gx gy" for gx gy
    using revealsExactly_keeps[OF wf r(2) that] by (auto simp: mineAt_def)
  then show ?thesis
    using r(1) adjInv_revealsExactly[OF wf adj r(2)] revealsExactly_wf[OF r(2)] by blast
qed

lemma adjInv_flagCell:
  assumes wf: "wf_grid conf (completeGrid w)" and adj: "adjInv conf (completeGrid w)"
  shows "\<exists>u w'. flagCell conf cx cy lx ly w = Inr (u, w') \<and> wf_grid conf (completeGrid w') \<and>
           adjInv conf (completeGrid w') \<and>
           (\<forall>gx gy. inBounds conf gx gy \<longrightarrow> mineAt (completeGrid w') gx gy = mineAt (completeGrid w) gx gy)"
proof -
  let ?gx = "cx * CHUNK_SIZE conf + lx" and ?gy = "cy * CHUNK_SIZE conf + ly"
  show ?thesis
  proof (cases "inBounds conf ?gx ?gy")
    case False
    then show ?thesis using flagCell_outside wf adj by simp
  next
    case ib: True
    from cellAt_wf_ex[OF wf ib] obtain c where c: "cellAt (completeGrid w) ?gx ?gy = Inr c" by blast
    show ?thesis
    proof (cases "revealed c")
      case True
      then show ?thesis using flagCell_revealed[OF c] wf adj by simp
    next
      case False
      let ?c' = "c\<lparr>flagged := \<not> flagged c\<rparr>"
      let ?g' = "setCell (completeGrid w) ?gx ?gy ?c'"
      have cs: "\<And>x y. inBounds conf x y \<Longrightarrow> cellAt ?g' x y =
                 (if x = ?gx \<and> y = ?gy then Inr ?c' else cellAt (completeGrid w) x y)"
        by (rule cellAt_setCell[OF wf ib])
      have "adjInv conf ?g'"
      proof (rule adjInv_cong[OF adj wf])
        fix x y d assume "inBounds conf x y" "cellAt (completeGrid w) x y = Inr d"
        then show "\<exists>c'. cellAt ?g' x y = Inr c' \<and> hasMine c' = hasMine d \<and> adjacentMines c' = adjacentMines d"
          using cs c by auto
      qed
      moreover have "\<forall>gx gy. inBounds conf gx gy \<longrightarrow> mineAt ?g' gx gy = mineAt (completeGrid w) gx gy"
        using cs c by (auto simp: mineAt_def)
      ultimately show ?thesis
        using flagCell_toggle[OF ib c False refl refl] wf_grid_setCell[OF wf] by simp
    qed
  qed
qed

lemma floodable_iff:
  "floodable g gx gy \<longleftrightarrow>
     (\<exists>c. cellAt g gx gy = Inr c) \<and> \<not> revealedIn g gx gy \<and> \<not> flaggedIn g gx gy \<and> \<not> mineAt g gx gy"
  by (auto simp: floodable_def revealedIn_def flaggedIn_def mineAt_def split: sum.splits)

lemma zeroCell_not_mine: "zeroCell g gx gy \<Longrightarrow> \<not> mineAt g gx gy"
  by (auto simp: zeroCell_def mineAt_def split: sum.splits)

lemma numbered_not_zero: "numbered g gx gy \<Longrightarrow> \<not> zeroCell g gx gy"
  by (auto simp: zeroCell_def numbered_def split: sum.splits)

lemma floodReach_region:
  assumes wf: "wf_grid conf g" and adj: "adjInv conf g" and reg: "zeroRegion conf g Z sx sy"
  shows "floodReach conf g sx sy = Z \<union> regionBorder conf g Z"
proof -
  have s: "(sx, sy) \<in> Z" using reg by (simp add: zeroRegion_def)
  have zc: "inBounds conf gx gy \<and> zeroCell g gx gy \<and> \<not> revealedIn g gx gy \<and> \<not> flaggedIn g gx gy"
    if "(gx, gy) \<in> Z" for gx gy using reg that by (auto simp: zeroRegion_def)
  have conn: "Z \<subseteq> regionFrom Z sx sy" using reg by (simp add: zeroRegion_def)
  have bord: "numbered g (gx + dx) (gy + dy)"
    if "(gx, gy) \<in> Z" "(dx, dy) \<in> set offsets" "inBounds conf (gx + dx) (gy + dy)"
       "(gx + dx, gy + dy) \<notin> Z" for gx gy dx dy
    using reg that unfolding zeroRegion_def by blast
  have zfl: "floodable g gx gy" if "(gx, gy) \<in> Z" for gx gy
    using zc[OF that] cellAt_wf_ex[OF wf, of gx gy] zeroCell_not_mine[of g gx gy]
    by (simp add: floodable_iff)
  have sub: "(gx, gy) \<in> Z \<union> regionBorder conf g Z" if "(gx, gy) \<in> floodReach conf g sx sy" for gx gy
    using that
  proof (induction rule: floodReach.induct)
    case start
    then show ?case using s by simp
  next
    case (step gx gy dx dy)
    have inZ: "(gx, gy) \<in> Z"
    proof (rule ccontr)
      assume nz: "(gx, gy) \<notin> Z"
      then have "(gx, gy) \<in> regionBorder conf g Z" using step.IH by simp
      then obtain ex ey where e: "(ex, ey) \<in> set offsets" "(gx - ex, gy - ey) \<in> Z"
        "inBounds conf gx gy" by (auto simp: regionBorder_def)
      from bord[OF e(2) e(1)] e(3) nz have "numbered g gx gy" by simp
      then show False using step.hyps(2) numbered_not_zero by blast
    qed
    show ?case
    proof (cases "(gx + dx, gy + dy) \<in> Z")
      case True
      then show ?thesis by simp
    next
      case False
      have "(gx + dx, gy + dy) \<in> regionBorder conf g Z"
        unfolding regionBorder_def using False step.hyps(3,4,5) inZ
        by (auto simp: floodable_iff intro!: bexI[of _ "(dx, dy)"])
      then show ?thesis by simp
    qed
  qed
  have zsub: "(gx, gy) \<in> floodReach conf g sx sy" if "(gx, gy) \<in> regionFrom Z sx sy" for gx gy
    using that
  proof (induction rule: regionFrom.induct)
    case start
    then show ?case using zc[OF s] zfl[OF s] by (simp add: floodReach.start)
  next
    case (step gx gy dx dy)
    have "(gx, gy) \<in> Z"
      using step.hyps(1) by (induction rule: regionFrom.induct) auto
    then have "zeroCell g gx gy" using zc by simp
    from floodReach.step[OF step.IH this step.hyps(2)] zc[OF step.hyps(3)] zfl[OF step.hyps(3)]
    show ?case by simp
  qed
  have bsub: "(nx, ny) \<in> floodReach conf g sx sy" if "(nx, ny) \<in> regionBorder conf g Z" for nx ny
  proof -
    from that obtain dx dy where
      b: "(dx, dy) \<in> set offsets" "(nx - dx, ny - dy) \<in> Z" "inBounds conf nx ny"
         "\<not> revealedIn g nx ny" "\<not> flaggedIn g nx ny" by (auto simp: regionBorder_def)
    have z: "zeroCell g (nx - dx) (ny - dy)" "inBounds conf (nx - dx) (ny - dy)" using zc[OF b(2)] by simp_all
    have r: "(nx - dx, ny - dy) \<in> floodReach conf g sx sy" using zsub conn b(2) by blast
    have "\<not> mineAt g (nx - dx + dx) (ny - dy + dy)"
      by (rule adjInv_zero_no_mine[OF adj z(2) z(1) b(1)]) (use b(3) in simp)
    then have "floodable g (nx - dx + dx) (ny - dy + dy)"
      using b(3,4,5) cellAt_wf_ex[OF wf b(3)] by (simp add: floodable_iff)
    from floodReach.step[OF r z(1) b(1) _ this] b(3) show ?thesis by simp
  qed
  show ?thesis using sub zsub bsub conn by auto
qed

text \<open>
  Claim C8. Let the dimensions be positive, the number of cells one that a double holds
  exactly, and the mine percentage a number that is not negative. Every grid that
  \<^verbatim>\<open>initializeCompleteGrid\<close> returns has exactly \<^verbatim>\<open>mineCount\<close> cells with a mine, the number
  \<^verbatim>\<open>Math.round(GRID_WIDTH * GRID_HEIGHT * MINE_PERCENTAGE)\<close> that the code computes in the
  arithmetic of doubles; each cell is counted once, so no more than there are cells. And
  the initialization returns a grid as soon as the draws are in bounds and hold that many
  different cells.
\<close>

theorem exact_mine_count:
  assumes "0 < GRID_WIDTH conf" "0 < GRID_HEIGHT conf" "GRID_WIDTH conf * GRID_HEIGHT conf \<le> 2 ^ 53"
    and "MINE_PERCENTAGE conf = Num p" "0 \<le> p"
  shows "(\<forall>g. initializeCompleteGrid conf draws = Some (Inr g) \<longrightarrow>
            mineCount conf = Num (of_int (int (totalMines g))) \<and>
            int (totalMines g) \<le> GRID_WIDTH conf * GRID_HEIGHT conf) \<and>
         ((\<forall>(gx, gy) \<in> set draws. inBounds conf gx gy) \<and>
          \<not> js_less (Num (of_int (int (card (set draws))))) (mineCount conf) \<longrightarrow>
          (\<exists>g. initializeCompleteGrid conf draws = Some (Inr g)))"
proof -
  have n0: "0 \<le> GRID_WIDTH conf * GRID_HEIGHT conf" using assms(1,2) by simp
  note v = mineCount_valid[OF n0 assms(3,4,5)]
  have 1: "mineCount conf = Num (of_int (int (totalMines g))) \<and>
           int (totalMines g) \<le> GRID_WIDTH conf * GRID_HEIGHT conf"
    if run: "initializeCompleteGrid conf draws = Some (Inr g)" for g
  proof -
    from v initialize_not_PosInfinity[OF run] obtain k where
      k: "0 \<le> k" "mineCount conf = Num (of_int k)" by blast
    have t: "int (totalMines g) = k" by (rule initialize_totalMines[OF run k(2) k(1)])
    have "wf_grid conf g" using initialize_adjInv[OF run] by simp
    from totalMines_le[OF this]
    have "int (totalMines g) \<le> int (nat (GRID_WIDTH conf) * nat (GRID_HEIGHT conf))"
      by (simp only: of_nat_le_iff)
    also have "\<dots> = GRID_WIDTH conf * GRID_HEIGHT conf" using assms(1,2) by simp
    finally have "int (totalMines g) \<le> GRID_WIDTH conf * GRID_HEIGHT conf" .
    then show ?thesis using k(2) t by simp
  qed
  have 2: "\<exists>g. initializeCompleteGrid conf draws = Some (Inr g)"
    if ib: "\<forall>(gx, gy) \<in> set draws. inBounds conf gx gy"
      and le: "\<not> js_less (Num (of_int (int (card (set draws))))) (mineCount conf)"
  proof -
    have "mineCount conf \<noteq> PosInfinity" using le by (auto simp: js_less_PosInfinity)
    with v obtain k where k: "mineCount conf = Num (of_int k)" by blast
    from le have "\<not> js_less (Num (of_int (int (card (set draws))))) (Num (of_int k))"
      unfolding k .
    then have "\<not> int (card (set draws)) < k" unfolding js_less_int .
    then have "k \<le> int (card (set draws))" by simp
    from initialize_returns[OF ib k this] show ?thesis .
  qed
  show ?thesis using 1 2 by blast
qed

text \<open>
  Ten cells and a percentage of \<^verbatim>\<open>0.15\<close>: the product of the doubles is \<^verbatim>\<open>1.5\<close>, which rounds
  to two mines (the exact product of ten and the double \<^verbatim>\<open>0.15\<close> is below \<open>3/2\<close>). The
  second draw repeats the first and places nothing.
\<close>

theorem exact_mine_count_witness:
  "mineCount \<lparr>CHUNK_SIZE = 100, GRID_WIDTH = 10, GRID_HEIGHT = 1, MINE_PERCENTAGE = fl (15 / 100)\<rparr> = Num 2 \<and>
   (\<exists>g. initializeCompleteGrid
           \<lparr>CHUNK_SIZE = 100, GRID_WIDTH = 10, GRID_HEIGHT = 1, MINE_PERCENTAGE = fl (15 / 100)\<rparr>
           [(4, 0), (4, 0), (7, 0)] = Some (Inr g) \<and>
        totalMines g = 2 \<and>
        map (map hasMine) g = [[False, False, False, False, True, False, False, True, False, False]])"
proof -
  let ?c = "\<lparr>CHUNK_SIZE = 100, GRID_WIDTH = 10, GRID_HEIGHT = 1, MINE_PERCENTAGE = fl (15 / 100)\<rparr>"
  have f: "fl (15 / 100) = Num (5404319552844595 / 36028797018963968)" by code_simp
  define p :: rat where "p = 5404319552844595 / 36028797018963968"
  have p: "MINE_PERCENTAGE ?c = Num p" "0 \<le> p"
    by (simp only: config.select_convs f p_def) (simp add: p_def)
  have d: "0 < GRID_WIDTH ?c" "0 < GRID_HEIGHT ?c" "GRID_WIDTH ?c * GRID_HEIGHT ?c \<le> 2 ^ 53"
    by simp_all
  have mc: "mineCount ?c = Num 2" by code_simp
  have "map_option (map_sum id (map (map hasMine))) (initializeCompleteGrid ?c [(4, 0), (4, 0), (7, 0)])
          = Some (Inr [[False, False, False, False, True, False, False, True, False, False]])"
    by code_simp
  then obtain g where g: "initializeCompleteGrid ?c [(4, 0), (4, 0), (7, 0)] = Some (Inr g)"
    "map (map hasMine) g = [[False, False, False, False, True, False, False, True, False, False]]"
    by (cases "initializeCompleteGrid ?c [(4, 0), (4, 0), (7, 0)]") (auto simp: map_sum_def split: sum.splits)
  from exact_mine_count[OF d p, of "[(4, 0), (4, 0), (7, 0)]"] g(1)
  have "mineCount ?c = Num (of_int (int (totalMines g)))" by blast
  then have "totalMines g = 2" unfolding mc by simp
  then show ?thesis using mc g by (intro conjI exI[of _ g]) simp_all
qed

text \<open>
  The adjacency invariant on server.js: the grid that \<^verbatim>\<open>initializeCompleteGrid\<close> returns has the configured
  size and every count is the number of neighbours in bounds with a mine; every reveal and
  chord request that returns, and every flag request, keeps both and keeps the mines where
  they are.
\<close>

lemma server_adjacency_invariant:
  "(initializeCompleteGrid conf draws = Some (Inr g) \<longrightarrow> wf_grid conf g \<and> adjInv conf g) \<and>
   (wf_grid conf (completeGrid w) \<and> adjInv conf (completeGrid w) \<and> 0 < CHUNK_SIZE conf \<longrightarrow>
      (\<forall>outs w'. revealCell conf depth cx cy lx ly w = Inr (outs, w') \<or>
                 handleChordClick conf depth cx cy lx ly w = Inr (outs, w') \<or>
                 (\<exists>u. flagCell conf cx cy lx ly w = Inr (u, w')) \<longrightarrow>
          wf_grid conf (completeGrid w') \<and> adjInv conf (completeGrid w') \<and>
          (\<forall>gx gy. inBounds conf gx gy \<longrightarrow>
             mineAt (completeGrid w') gx gy = mineAt (completeGrid w) gx gy)))"
proof -
  have 1: "wf_grid conf g \<and> adjInv conf g" if "initializeCompleteGrid conf draws = Some (Inr g)"
    using that by (rule initialize_adjInv)
  have 2: "wf_grid conf (completeGrid w') \<and> adjInv conf (completeGrid w') \<and>
          (\<forall>gx gy. inBounds conf gx gy \<longrightarrow>
             mineAt (completeGrid w') gx gy = mineAt (completeGrid w) gx gy)"
    if a: "wf_grid conf (completeGrid w) \<and> adjInv conf (completeGrid w) \<and> 0 < CHUNK_SIZE conf"
      and r: "revealCell conf depth cx cy lx ly w = Inr (outs, w') \<or>
              handleChordClick conf depth cx cy lx ly w = Inr (outs, w') \<or>
              (\<exists>u. flagCell conf cx cy lx ly w = Inr (u, w'))" for outs w'
  proof -
    from a have wf: "wf_grid conf (completeGrid w)" and adj: "adjInv conf (completeGrid w)"
      and S: "0 < CHUNK_SIZE conf" by simp_all
    show ?thesis
    proof (cases "\<exists>u. flagCell conf cx cy lx ly w = Inr (u, w')")
      case True
      then show ?thesis using adjInv_flagCell[OF wf adj, of cx cy lx ly] by auto
    next
      case False
      with r revealCell_outcome[OF wf S] handleChordClick_outcome[OF wf S]
      obtain P b where "revealOutcome conf (completeGrid w) w P b (Inr (outs, w'))" by blast
      from adjInv_revealOutcome[OF wf adj this] show ?thesis by simp
    qed
  qed
  show ?thesis using 1 2 by blast
qed

text \<open>
  Claim C1, as the code has it. In a grid of the configured size whose counts are the
  numbers of neighbouring mines, let \<open>Z\<close> be a region of contiguous zero cells, unrevealed
  and unflagged, whose neighbours outside \<open>Z\<close> all have a positive count. \<^verbatim>\<open>revealCell\<close> on
  any cell of \<open>Z\<close> returns if the call stack holds one nested call of \<^verbatim>\<open>flood\<close> for every cell
  of \<open>Z\<close> and every unrevealed, unflagged cell that touches \<open>Z\<close>; and whenever it returns, the
  list names, each once, exactly these cells, no listed cell has a mine, the grid
  afterwards is the grid before with exactly these cells revealed, and no mine is counted
  as exploded.
\<close>

theorem flood_fill_region:
  assumes wf: "wf_grid conf (completeGrid w)" and adj: "adjInv conf (completeGrid w)"
    and S: "0 < CHUNK_SIZE conf"
    and gx: "gx = cx * CHUNK_SIZE conf + lx" and gy: "gy = cy * CHUNK_SIZE conf + ly"
    and g: "g = completeGrid w"
    and reg: "zeroRegion conf g Z gx gy"
  shows "(card Z + card (regionBorder conf g Z) \<le> depth \<longrightarrow>
            (\<exists>outs w'. revealCell conf depth cx cy lx ly w = Inr (outs, w'))) \<and>
         (\<forall>outs w'. revealCell conf depth cx cy lx ly w = Inr (outs, w') \<longrightarrow>
            distinct (map (updatePos conf) outs) \<and>
            set (map (updatePos conf) outs) = Z \<union> regionBorder conf g Z \<and>
            length outs = card Z + card (regionBorder conf g Z) \<and>
            (\<forall>u \<in> set outs. \<not> hasMine (u_cell u) \<and> revealed (u_cell u)) \<and>
            (\<forall>x y. inBounds conf x y \<longrightarrow>
               cellAt (completeGrid w') x y = markRevealed (Z \<union> regionBorder conf g Z) g x y) \<and>
            bombsExploded w' = bombsExploded w)"
proof -
  have wfg: "wf_grid conf g" and adjg: "adjInv conf g" using wf adj g by simp_all
  have s: "(gx, gy) \<in> Z" using reg by (simp add: zeroRegion_def)
  then have st: "inBounds conf gx gy" "zeroCell g gx gy" "\<not> revealedIn g gx gy" "\<not> flaggedIn g gx gy"
    using reg by (auto simp: zeroRegion_def)
  have P: "revealSet conf g gx gy = Z \<union> regionBorder conf g Z"
    using st floodReach_region[OF wfg adjg reg] by (simp add: revealSet_def)
  have m: "\<not> mineAt g gx gy" using st(2) by (rule zeroCell_not_mine)
  have fin: "finite (Z \<union> regionBorder conf g Z)" using finite_revealSet[of conf g gx gy] P by simp
  have "Z \<inter> regionBorder conf g Z = {}" by (auto simp: regionBorder_def)
  then have cardP: "card (Z \<union> regionBorder conf g Z) = card Z + card (regionBorder conf g Z)"
    using fin by (intro card_Un_disjoint) simp_all
  have 1: "\<exists>outs w'. revealCell conf depth cx cy lx ly w = Inr (outs, w')"
    if "card Z + card (regionBorder conf g Z) \<le> depth"
  proof -
    have "card (revealSet conf (completeGrid w) gx gy) \<le> depth" using that P cardP g by simp
    from revealCell_returns[OF wf S gx gy this] show ?thesis by auto
  qed
  have 2: "distinct (map (updatePos conf) outs) \<and>
            set (map (updatePos conf) outs) = Z \<union> regionBorder conf g Z \<and>
            length outs = card Z + card (regionBorder conf g Z) \<and>
            (\<forall>u \<in> set outs. \<not> hasMine (u_cell u) \<and> revealed (u_cell u)) \<and>
            (\<forall>x y. inBounds conf x y \<longrightarrow>
               cellAt (completeGrid w') x y = markRevealed (Z \<union> regionBorder conf g Z) g x y) \<and>
            bombsExploded w' = bombsExploded w"
    if run: "revealCell conf depth cx cy lx ly w = Inr (outs, w')" for outs w'
  proof -
    have "revealOutcome conf g w (Z \<union> regionBorder conf g Z) 0 (Inr (outs, w'))"
      using revealCell_spec[OF wf S gx gy run] P m g by simp
    then have
      r: "bombsExploded w' = bombsExploded w + 0"
         "revealsExactly conf g (Z \<union> regionBorder conf g Z) outs (completeGrid w')"
      by (simp_all add: revealOutcome_Inr)
    have dist: "distinct (map (updatePos conf) outs)" using r(2) by (rule revealsExactly_distinct)
    have set: "set (map (updatePos conf) outs) = Z \<union> regionBorder conf g Z"
      using r(2) by (rule revealsExactly_set)
    have len: "length outs = card Z + card (regionBorder conf g Z)"
      using distinct_card[OF dist] set cardP by simp
    have cellsok: "\<forall>u \<in> set outs. \<not> hasMine (u_cell u) \<and> revealed (u_cell u)"
    proof
      fix u assume u: "u \<in> set outs"
      let ?x = "fst (updatePos conf u)" and ?y = "snd (updatePos conf u)"
      have p: "(?x, ?y) \<in> revealSet conf g gx gy" using u set P by auto
      have ib: "inBounds conf ?x ?y" using revealsExactly_fresh[OF r(2)] p P by auto
      have nm: "\<not> mineAt g ?x ?y" by (rule revealSet_no_mine[OF p m])
      from revealsExactly_keeps[OF wfg r(2) ib] revealsExactly_ucell[OF r(2) u] nm p P
      show "\<not> hasMine (u_cell u) \<and> revealed (u_cell u)" by (auto simp: mineAt_def)
    qed
    show ?thesis using r(1) dist set len cellsok revealsExactly_cell[OF r(2)] by auto
  qed
  show ?thesis using 1 2 by blast
qed

lemma testRegion_walk: "testRegion \<subseteq> regionFrom testRegion 0 0"
proof -
  have r00: "(0, 0) \<in> regionFrom testRegion 0 0"
    by (rule regionFrom.start) (simp add: testRegion_def)
  have r10: "(1, 0) \<in> regionFrom testRegion 0 0"
    using regionFrom.step[OF r00, of 1 0] by (simp add: offsets_def testRegion_def)
  have r20: "(2, 0) \<in> regionFrom testRegion 0 0"
    using regionFrom.step[OF r10, of 1 0] by (simp add: offsets_def testRegion_def)
  have r30: "(3, 0) \<in> regionFrom testRegion 0 0"
    using regionFrom.step[OF r20, of 1 0] by (simp add: offsets_def testRegion_def)
  have r01: "(0, 1) \<in> regionFrom testRegion 0 0"
    using regionFrom.step[OF r00, of 0 1] by (simp add: offsets_def testRegion_def)
  have r11: "(1, 1) \<in> regionFrom testRegion 0 0"
    using regionFrom.step[OF r00, of 1 1] by (simp add: offsets_def testRegion_def)
  have r02: "(0, 2) \<in> regionFrom testRegion 0 0"
    using regionFrom.step[OF r01, of 0 1] by (simp add: offsets_def testRegion_def)
  have r12: "(1, 2) \<in> regionFrom testRegion 0 0"
    using regionFrom.step[OF r11, of 0 1] by (simp add: offsets_def testRegion_def)
  show ?thesis using r00 r10 r20 r30 r01 r11 r02 r12 by (simp add: testRegion_def)
qed

lemma testRegion_cells:
  "\<forall>(gx, gy) \<in> testRegion. inBounds testConf gx gy \<and> zeroCell testGrid gx gy \<and>
      \<not> revealedIn testGrid gx gy \<and> \<not> flaggedIn testGrid gx gy"
  unfolding testRegion_def by code_simp

lemma testRegion_border:
  "\<forall>(gx, gy) \<in> testRegion. \<forall>(dx, dy) \<in> set offsets.
        inBounds testConf (gx + dx) (gy + dy) \<longrightarrow> (gx + dx, gy + dy) \<notin> testRegion \<longrightarrow>
        numbered testGrid (gx + dx) (gy + dy)"
  unfolding testRegion_def by code_simp

lemma testRegion_zeroRegion: "zeroRegion testConf testGrid testRegion 0 0"
  unfolding zeroRegion_def using testRegion_walk testRegion_cells testRegion_border
  by (simp add: testRegion_def)

text \<open>
  In the small world the region has eight cells and three numbered cells touch it: with a
  call stack of eleven nested calls, revealing its corner \<open>(0, 0)\<close> returns and lists these
  eleven cells.
\<close>

theorem flood_fill_region_witness:
  "\<exists>outs w'. revealCell testConf 11 0 0 0 0 testWorld = Inr (outs, w') \<and>
     set (map (updatePos testConf) outs) = testRegion \<union> regionBorder testConf testGrid testRegion \<and>
     length outs = 11 \<and>
     bombsExploded w' = bombsExploded testWorld"
proof -
  have wf: "wf_grid testConf (completeGrid testWorld)" using wf_testGrid by (simp add: testWorld_def)
  have adj: "adjInv testConf (completeGrid testWorld)"
    using initialize_adjInv[OF testGrid_init] by (simp add: testWorld_def)
  have S: "0 < CHUNK_SIZE testConf" by (simp add: testConf_def)
  have g0: "(0::int) = 0 * CHUNK_SIZE testConf + 0" by simp
  have g: "testGrid = completeGrid testWorld" by (simp add: testWorld_def)
  note t = flood_fill_region[OF wf adj S g0 g0 g testRegion_zeroRegion]
  from test_reveal obtain outs8 w8 where
    r8: "revealCell testConf 8 0 0 0 0 testWorld = Inr (outs8, w8)"
    by (cases "revealCell testConf 8 0 0 0 0 testWorld") auto
  have "length (map (updatePos testConf) outs8) = 11" using test_reveal r8 by simp
  moreover from t[of 8] r8
  have "length outs8 = card testRegion + card (regionBorder testConf testGrid testRegion)" by blast
  ultimately have c: "card testRegion + card (regionBorder testConf testGrid testRegion) \<le> 11" by simp
  from t[of 11] c obtain outs w' where
    r: "revealCell testConf 11 0 0 0 0 testWorld = Inr (outs, w')" by blast
  from t[of 11] r have
    "set (map (updatePos testConf) outs) = testRegion \<union> regionBorder testConf testGrid testRegion"
    "length outs = card testRegion + card (regionBorder testConf testGrid testRegion)"
    "bombsExploded w' = bombsExploded testWorld" by blast+
  moreover have "card testRegion + card (regionBorder testConf testGrid testRegion) = 11"
    using \<open>length (map (updatePos testConf) outs8) = 11\<close>
      \<open>length outs8 = card testRegion + card (regionBorder testConf testGrid testRegion)\<close> by simp
  ultimately show ?thesis using r by (intro exI[of _ outs] exI[of _ w']) simp
qed

text \<open>
  Claim C1 as stated fails: \<^verbatim>\<open>flood\<close> is a recursive closure and nothing bounds its depth.
  In the small world, with a call stack of seven nested calls, revealing the corner
  \<open>(0, 0)\<close> of the region raises \<^verbatim>\<open>RangeError\<close> and returns no list.
\<close>

theorem flood_fill_stack_exhausted:
  "zeroRegion testConf testGrid testRegion 0 0 \<and>
   revealCell testConf 7 0 0 0 0 testWorld = Inl RangeError"
proof -
  have "map_sum id fst (revealCell testConf 7 0 0 0 0 testWorld) = Inl RangeError"
    by code_simp
  then have "revealCell testConf 7 0 0 0 0 testWorld = Inl RangeError"
    by (cases "revealCell testConf 7 0 0 0 0 testWorld") auto
  then show ?thesis using testRegion_zeroRegion by simp
qed

text \<open>
  No call stack is deep enough for every grid: whatever number of nested calls it holds,
  revealing the first cell of a corridor with one cell more raises \<^verbatim>\<open>RangeError\<close>. The
  flood walks the corridor from cell to cell, each call nested in the one before.
\<close>

lemma corridor_init:
  "initializeCompleteGrid (corridorConf n) draws = Some (Inr (completeGrid (corridorWorld n)))"
proof -
  have "\<not> js_less (Num 0) (mineCount (corridorConf n))"
    by (rule mineCount_not_positive) (simp add: corridorConf_def js_less_def)
  then show ?thesis by (simp add: initialize_emptyGrid corridorWorld_def)
qed

lemma corridor_inBounds: "inBounds (corridorConf n) x y \<longleftrightarrow> 0 \<le> x \<and> x < int n \<and> y = 0"
  by (auto simp: inBounds_def corridorConf_def)

lemma flood_corridor:
  "wf_grid (corridorConf n) (fgrid s) \<Longrightarrow> 0 \<le> x \<Longrightarrow> x + int depth < int n \<Longrightarrow>
   (\<forall>i. x \<le> i \<and> i < int n \<longrightarrow> cellAt (fgrid s) i 0 = Inr (newCell i 0) \<and> (i, 0) \<notin> visited s) \<Longrightarrow>
   (0 < x \<longrightarrow> (\<exists>c. cellAt (fgrid s) (x - 1) 0 = Inr c \<and> revealed c)) \<Longrightarrow>
   flood (corridorConf n) depth x 0 s = Inl RangeError"
proof (induction depth arbitrary: x s)
  case 0
  then show ?case by simp
next
  case (Suc depth)
  let ?C = "corridorConf n"
  let ?c' = "(newCell x 0)\<lparr>revealed := True\<rparr>"
  let ?s2 = "s\<lparr>visited := insert (x, 0) (visited s), fgrid := setCell (fgrid s) x 0 ?c',
               revealedList := revealedList s @ [mkUpdate ?C x 0 ?c']\<rparr>"
  have xb: "inBounds ?C x 0" using Suc.prems(2,3) by (simp add: corridor_inBounds)
  have cx: "cellAt (fgrid s) x 0 = Inr (newCell x 0)" and nv: "(x, 0) \<notin> visited s"
    using Suc.prems(2,3,4) by simp_all
  have set': "\<And>i j. inBounds ?C i j \<Longrightarrow>
      cellAt (setCell (fgrid s) x 0 ?c') i j = (if i = x \<and> j = 0 then Inr ?c' else cellAt (fgrid s) i j)"
    by (rule cellAt_setCell[OF Suc.prems(1) xb])
  have wf2: "wf_grid ?C (fgrid ?s2)" using wf_grid_setCell[OF Suc.prems(1)] by simp
  have nb: "inBounds ?C (x + 1) 0" using Suc.prems(2,3) by (simp add: corridor_inBounds)
  have right: "cellAt (fgrid ?s2) (x + 1) 0 = Inr (newCell (x + 1) 0)"
    using set'[OF nb] Suc.prems(2,3,4) by simp
  have fresh2: "\<forall>i. x + 1 \<le> i \<and> i < int n \<longrightarrow>
      cellAt (fgrid ?s2) i 0 = Inr (newCell i 0) \<and> (i, 0) \<notin> visited ?s2"
  proof (intro allI impI)
    fix i assume i: "x + 1 \<le> i \<and> i < int n"
    then have "inBounds ?C i 0" using Suc.prems(2) by (simp add: corridor_inBounds)
    from set'[OF this] i Suc.prems(4)
    show "cellAt (fgrid ?s2) i 0 = Inr (newCell i 0) \<and> (i, 0) \<notin> visited ?s2" by simp
  qed
  have left2: "0 < x + 1 \<longrightarrow> (\<exists>c. cellAt (fgrid ?s2) (x + 1 - 1) 0 = Inr c \<and> revealed c)"
    using set'[OF xb] by simp
  have IH: "flood ?C depth (x + 1) 0 ?s2 = Inl RangeError"
    by (rule Suc.IH[OF wf2 _ _ fresh2 left2]) (use Suc.prems(2,3) in simp_all)
  have leftskip: "inBounds ?C (x - 1) 0 \<Longrightarrow> \<exists>c. cellAt (fgrid ?s2) (x - 1) 0 = Inr c \<and> revealed c"
  proof -
    assume lb: "inBounds ?C (x - 1) 0"
    then have "0 < x" by (simp add: corridor_inBounds)
    with Suc.prems(5) obtain c where "cellAt (fgrid s) (x - 1) 0 = Inr c" "revealed c" by blast
    then show ?thesis using set'[OF lb] by simp
  qed
  have nbs: "floodNeighbors ?C depth x 0 offsets ?s2 = Inl RangeError"
  proof (cases "inBounds ?C (x - 1) 0")
    case True
    from leftskip[OF True] obtain c where c: "cellAt (fgrid ?s2) (x - 1) 0 = Inr c" "revealed c" by blast
    show ?thesis using True c nb right IH
      by (simp add: offsets_def corridor_inBounds Let_def newCell_def del: flood.simps)
  next
    case False
    then show ?thesis using nb right IH
      by (simp add: offsets_def corridor_inBounds Let_def newCell_def del: flood.simps)
  qed
  show ?case using nv cx nbs by (simp add: Let_def newCell_def)
qed

lemma corridor_stack_exhausted:
  "revealCell (corridorConf (Suc depth)) depth 0 0 0 0 (corridorWorld (Suc depth)) = Inl RangeError"
proof -
  let ?C = "corridorConf (Suc depth)"
  have ib: "inBounds ?C 0 0" by (simp add: corridor_inBounds)
  have c: "cellAt (emptyGrid ?C) 0 0 = Inr (newCell 0 0)" by (rule cellAt_emptyGrid[OF ib])
  have "flood ?C depth 0 0 \<lparr>visited = {}, fgrid = emptyGrid ?C, revealedList = []\<rparr> = Inl RangeError"
  proof (rule flood_corridor)
    show "wf_grid ?C (fgrid \<lparr>visited = {}, fgrid = emptyGrid ?C, revealedList = []\<rparr>)"
      by (simp add: wf_emptyGrid)
    show "\<forall>i. 0 \<le> i \<and> i < int (Suc depth) \<longrightarrow>
        cellAt (fgrid \<lparr>visited = {}, fgrid = emptyGrid ?C, revealedList = []\<rparr>) i 0 = Inr (newCell i 0) \<and>
        (i, 0) \<notin> visited \<lparr>visited = {}, fgrid = emptyGrid ?C, revealedList = []\<rparr>"
      using cellAt_emptyGrid[of ?C] by (simp add: corridor_inBounds)
  qed simp_all
  then show ?thesis using c ib
    by (simp add: revealCell_def corridorWorld_def Let_def newCell_def inBounds_def corridorConf_def)
qed

subsection \<open>The variants of the server\<close>

lemma lazy_row_missing:
  assumes "chunks (0, 0) = Some ch" "length ch \<le> 100"
  shows "flagCell_lazy constants_lazy draws 0 0 0 100 chunks = Some (Inl TypeError)"
    "revealCell_lazy_target constants_lazy draws 0 0 0 100 chunks = Some (Inl TypeError)"
  using assms
  by (simp_all add: flagCell_lazy_def revealCell_lazy_target_def getOrCreateChunk_lazy_def
      cellAt_def js_nth_def)

text \<open>
  Claim C3 on part_002: \<^verbatim>\<open>revealCell\<close> and the handler of \<^verbatim>\<open>flag_cell\<close> index the chunk with
  the coordinates they receive and test no bound. In the small instance (chunks of two
  rows) the row \<open>2\<close> is undefined and both raise \<^verbatim>\<open>TypeError\<close>; a flag request for chunk
  \<open>(7, 7)\<close>, outside the world of four by two cells, creates that chunk and flags its cell.
\<close>

theorem lazy_server_throws:
  "map_option (map_sum id fst) (revealCell_lazy_target lazyConf [(0, 0)] 0 0 0 2 (\<lambda>k. None))
     = Some (Inl TypeError) \<and>
   map_option (map_sum id fst) (flagCell_lazy lazyConf [(0, 0)] 0 0 0 2 (\<lambda>k. None))
     = Some (Inl TypeError) \<and>
   map_option (map_sum id fst) (flagCell_lazy lazyConf [(0, 0)] 7 7 0 0 (\<lambda>k. None))
     = Some (Inr (Some \<lparr>u_cx = 7, u_cy = 7, u_x = 0, u_y = 0,
                        u_cell = \<lparr>cell_x = 14, cell_y = 14, revealed = False, hasMine = True,
                                   adjacentMines = 0, flagged = True\<rparr>\<rparr>))"
  by code_simp

text \<open>
  Claim C4 on part_002: a chunk counts the mines of the neighbouring chunks that exist when
  it is created, and its counts are never computed again. In the small instance the cell
  \<open>(1, 0)\<close> of chunk \<open>(0, 0)\<close> keeps the count one after chunk \<open>(1, 0)\<close> has put a mine next to
  it; counted in the final layout, it has two neighbours with a mine.
\<close>

theorem lazy_chunk_count_is_stale:
  "lazyAdjacencyScenario = Some (1, Inr 2)"
  by code_simp

text \<open>
  On server.js, with integer coordinates and a grid of the configured size: outside the
  bounds, on a revealed target of a reveal or a flag, and on a flagged target of a reveal
  the operations return nothing and the same state; a flag request always returns; a
  reveal and a chord return when the call stack holds one nested call of \<^verbatim>\<open>flood\<close> for
  every cell they reveal, and at no depth of the stack do they read a property of
  \<^verbatim>\<open>undefined\<close>.
\<close>

lemma server_noop_policy:
  assumes wf: "wf_grid conf (completeGrid w)" and S: "0 < CHUNK_SIZE conf"
    and gx: "gx = cx * CHUNK_SIZE conf + lx" and gy: "gy = cy * CHUNK_SIZE conf + ly"
  shows "(card (revealSet conf (completeGrid w) gx gy) \<le> depth \<longrightarrow>
            (\<exists>r. revealCell conf depth cx cy lx ly w = Inr r)) \<and>
         (\<exists>r. flagCell conf cx cy lx ly w = Inr r) \<and>
         (card (chordSetOf conf (completeGrid w) (chordCandidates conf (completeGrid w) gx gy)) \<le> depth \<longrightarrow>
            (\<exists>r. handleChordClick conf depth cx cy lx ly w = Inr r)) \<and>
         revealCell conf depth cx cy lx ly w \<noteq> Inl TypeError \<and>
         handleChordClick conf depth cx cy lx ly w \<noteq> Inl TypeError \<and>
         (\<not> inBounds conf gx gy \<longrightarrow>
            revealCell conf depth cx cy lx ly w = Inr ([], w) \<and>
            flagCell conf cx cy lx ly w = Inr (None, w) \<and>
            handleChordClick conf depth cx cy lx ly w = Inr ([], w)) \<and>
         (inBounds conf gx gy \<and> revealedIn (completeGrid w) gx gy \<longrightarrow>
            revealCell conf depth cx cy lx ly w = Inr ([], w) \<and>
            flagCell conf cx cy lx ly w = Inr (None, w)) \<and>
         (inBounds conf gx gy \<and> flaggedIn (completeGrid w) gx gy \<longrightarrow>
            revealCell conf depth cx cy lx ly w = Inr ([], w))"
proof -
  have 1: "\<exists>r. revealCell conf depth cx cy lx ly w = Inr r"
    if "card (revealSet conf (completeGrid w) gx gy) \<le> depth"
    by (rule revealCell_returns[OF wf S gx gy that])
  have 3: "\<exists>r. handleChordClick conf depth cx cy lx ly w = Inr r"
    if d: "card (chordSetOf conf (completeGrid w) (chordCandidates conf (completeGrid w) gx gy)) \<le> depth"
  proof (cases "chordable conf (completeGrid w) gx gy \<and> chordMatches conf (completeGrid w) gx gy")
    case True
    then show ?thesis using handleChordClick_spec[OF wf S gx gy] d by blast
  next
    case False
    then show ?thesis using handleChordClick_noop[OF wf gx gy] by blast
  qed
  from flagCell_outcome[OF wf] have 2: "\<exists>r. flagCell conf cx cy lx ly w = Inr r" by blast
  have 4: "revealCell conf depth cx cy lx ly w = Inr ([], w) \<and>
            flagCell conf cx cy lx ly w = Inr (None, w) \<and>
            handleChordClick conf depth cx cy lx ly w = Inr ([], w)" if "\<not> inBounds conf gx gy"
    using that revealCell_outside flagCell_outside handleChordClick_noop[OF wf gx gy] gx gy
    by (simp add: chordable_def)
  have 5: "revealCell conf depth cx cy lx ly w = Inr ([], w) \<and> flagCell conf cx cy lx ly w = Inr (None, w)"
    if "inBounds conf gx gy" "revealedIn (completeGrid w) gx gy"
  proof -
    from cellAt_wf_ex[OF wf that(1)] obtain c where c: "cellAt (completeGrid w) gx gy = Inr c" by blast
    then have "revealed c" using that(2) by (simp add: revealedIn_def)
    then show ?thesis using revealCell_opened flagCell_revealed c gx gy by simp
  qed
  have 6: "revealCell conf depth cx cy lx ly w = Inr ([], w)"
    if "inBounds conf gx gy" "flaggedIn (completeGrid w) gx gy"
  proof -
    from cellAt_wf_ex[OF wf that(1)] obtain c where c: "cellAt (completeGrid w) gx gy = Inr c" by blast
    then have "flagged c" using that(2) by (simp add: flaggedIn_def)
    then show ?thesis using revealCell_opened c gx gy by simp
  qed
  note 7 = revealCell_error[OF wf S, of depth cx cy lx ly]
    handleChordClick_error[OF wf S, of depth cx cy lx ly]
  show ?thesis using 1 2 3 4 5 6 7 by blast
qed

lemma sequenceE_map:
  assumes "\<And>x. x \<in> set xs \<Longrightarrow> f x = Inr (h x)"
  shows "sequenceE (map f xs) = Inr (map h xs)"
  using assms by (induction xs) simp_all

text \<open>
  What holds of the extraction on server.js and part_001: for a chunk coordinate that is
  not negative it returns a square of \<^verbatim>\<open>CHUNK_SIZE\<close> rows, with a copy of the cell where the
  position is in bounds and a default cell elsewhere; the grid is an argument only.
\<close>

lemma extractChunk_nonneg:
  assumes wf: "wf_grid conf g" and S: "0 < CHUNK_SIZE conf" and c: "0 \<le> cx" "0 \<le> cy"
  shows "extractChunkFromCompleteGrid conf g cx cy =
     Inr (map (\<lambda>ly. map (\<lambda>lx.
            (let gridX = cx * CHUNK_SIZE conf + lx; gridY = cy * CHUNK_SIZE conf + ly in
             if inBounds conf gridX gridY then Obj (g ! nat gridY ! nat gridX)
             else Obj (newCell gridX gridY)))
          [0..CHUNK_SIZE conf - 1]) [0..CHUNK_SIZE conf - 1])"
proof -
  have cell: "extractCell conf g (cx * CHUNK_SIZE conf + lx) (cy * CHUNK_SIZE conf + ly) =
      Inr (let gridX = cx * CHUNK_SIZE conf + lx; gridY = cy * CHUNK_SIZE conf + ly in
             if inBounds conf gridX gridY then Obj (g ! nat gridY ! nat gridX)
             else Obj (newCell gridX gridY))"
    if "lx \<in> set [0..CHUNK_SIZE conf - 1]" "ly \<in> set [0..CHUNK_SIZE conf - 1]" for lx ly
  proof -
    have nn: "0 \<le> cx * CHUNK_SIZE conf + lx" "0 \<le> cy * CHUNK_SIZE conf + ly"
      using that c S by simp_all
    show ?thesis
    proof (cases "inBounds conf (cx * CHUNK_SIZE conf + lx) (cy * CHUNK_SIZE conf + ly)")
      case True
      from cellAt_wf[OF wf True] show ?thesis using True
        by (auto simp: extractCell_def cellAt_def inBounds_def Let_def split: option.splits)
    next
      case False
      then show ?thesis using nn by (auto simp: extractCell_def inBounds_def Let_def)
    qed
  qed
  show ?thesis
    unfolding extractChunkFromCompleteGrid_def Let_def
    by (intro sequenceE_map) (simp add: cell[unfolded Let_def])
qed

lemma getOrCreateChunk_fresh_current:
  "getOrCreateChunk_fresh conf cx cy w =
     map_sum id (\<lambda>ch. (ch, w)) (extractChunkFromCompleteGrid conf (completeGrid w) cx cy)"
  by (simp add: getOrCreateChunk_fresh_def split: sum.splits)

end
